theory Spec2Isabelle
  imports Main
begin

section \<open>Strings\<close>

text \<open>
  JavaScript strings are sequences of 16-bit code units. The strings of the vocabulary
  store (words, translations, contexts) are modelled as \<open>string\<close>, a list of 8-bit
  characters, so the store is modelled for strings whose code units are below 256 (ASCII
  and Latin-1). On that range \<open>String.prototype.toLowerCase\<close> maps one code unit to one
  code unit: the letters A to Z and the Latin-1 capitals 192 to 222, the multiplication
  sign 215 apart, move up by 32; everything else stays.
\<close>

definition isUpperCaseChar :: "char \<Rightarrow> bool" where
  "isUpperCaseChar c =
     (let n = (of_char c :: nat)
      in (65 \<le> n \<and> n \<le> 90) \<or> (192 \<le> n \<and> n \<le> 222 \<and> n \<noteq> 215))"

text \<open>Adding 32 to such a code unit sets its bit 5, which is clear before.\<close>

definition toLowerCaseChar :: "char \<Rightarrow> char" where
  "toLowerCaseChar c =
     (if isUpperCaseChar c
      then (case c of Char b0 b1 b2 b3 b4 b5 b6 b7 \<Rightarrow> Char b0 b1 b2 b3 b4 True b6 b7)
      else c)"

definition toLowerCase :: "string \<Rightarrow> string" where
  "toLowerCase s = map toLowerCaseChar s"

text \<open>
  The text of a page is not under the extension's control and can hold any code unit.
  It is modelled as a list of code units, each an integer (from 0 to 65535). \<open>units\<close>
  gives the code units of a string of the store.
\<close>

type_synonym codeUnit = int

definition units :: "string \<Rightarrow> codeUnit list" where
  "units s = map of_char s"

text \<open>
  On arbitrary code units \<open>toLowerCase\<close> follows the case mappings of Unicode, and it can
  change the length of a string: U+0130 (304), the capital I with a dot above, becomes
  the two code units 105 and 775. \<open>toLowerCaseUnits\<close> is \<open>toLowerCase\<close> on the strings made
  of code units below 256 and of the code units 304, 376, 924 and 956 (U+0178, whose
  lower-case form is 255; U+039C, whose lower-case form is U+03BC; U+03BC): these are the
  code units of the examples and of the text that the scan lower-cases, which is always
  a match of a stored word. Every other code unit is left as it is.
\<close>

definition toLowerCaseUnit :: "codeUnit \<Rightarrow> codeUnit list" where
  "toLowerCaseUnit u =
     (if (65 \<le> u \<and> u \<le> 90) \<or> (192 \<le> u \<and> u \<le> 222 \<and> u \<noteq> 215) then [u + 32]
      else if u = 304 then [105, 775]
      else if u = 376 then [255]
      else if u = 924 then [956]
      else [u])"

definition toLowerCaseUnits :: "codeUnit list \<Rightarrow> codeUnit list" where
  "toLowerCaseUnits s = concat (map toLowerCaseUnit s)"

section \<open>The vocabulary store (background service worker)\<close>

text \<open>
  A stored entry, as \<open>saveVocabEntry\<close> builds it. The field \<open>ctx\<close> is the source's
  \<open>context\<close>, which is a keyword of Isabelle.
\<close>

record VocabEntry =
  word :: string
  translation :: string
  ctx :: string
  sourceUrl :: string
  addedAt :: string

text \<open>
  The argument of \<open>saveVocabEntry\<close>: \<open>{ word, translation, context, sourceUrl }\<close>.
  \<open>context\<close> and \<open>sourceUrl\<close> may be missing (\<open>undefined\<close>), which is \<open>None\<close>.
\<close>

record EntryInput =
  inWord :: string
  inTranslation :: string
  inContext :: "string option"
  inSourceUrl :: "string option"

text \<open>\<open>x || ""\<close> on a string or \<open>undefined\<close>: the empty string is falsy too.\<close>

definition orEmpty :: "string option \<Rightarrow> string" where
  "orEmpty x = (case x of None \<Rightarrow> [] | Some s \<Rightarrow> (if s = [] then [] else s))"

text \<open>\<open>Array.prototype.findIndex\<close>: the index of the first element that passes, or -1.\<close>

fun findIndex :: "('a \<Rightarrow> bool) \<Rightarrow> 'a list \<Rightarrow> int" where
  "findIndex P [] = -1"
| "findIndex P (x # xs) =
     (if P x then 0 else (let r = findIndex P xs in if r < 0 then -1 else r + 1))"

text \<open>
  The body of the function that \<open>saveVocabEntry\<close> hands to \<open>serializedWrite\<close>, between
  its read of the list and its write: it takes the list read, and \<open>now\<close>, the value of
  \<open>new Date().toISOString()\<close>, and gives the list written and \<open>updated\<close>.
\<close>

definition saveVocabEntry :: "EntryInput \<Rightarrow> string \<Rightarrow> VocabEntry list \<Rightarrow> VocabEntry list \<times> bool" where
  "saveVocabEntry entry now vocabList =
     (let lowerWord = toLowerCase (inWord entry);
          existingIndex = findIndex (\<lambda>e. toLowerCase (word e) = lowerWord) vocabList;
          vocabEntry = \<lparr> word = inWord entry,
                         translation = inTranslation entry,
                         ctx = orEmpty (inContext entry),
                         sourceUrl = orEmpty (inSourceUrl entry),
                         addedAt = now \<rparr>
      in if existingIndex \<ge> 0
         then (vocabList[nat existingIndex :=
                 vocabEntry\<lparr> addedAt := addedAt (vocabList ! nat existingIndex) \<rparr>], True)
         else (vocabList @ [vocabEntry], False))"

text \<open>\<open>deleteVocabEntry\<close>: the list written, which is also the list returned.\<close>

definition deleteVocabEntry :: "string \<Rightarrow> VocabEntry list \<Rightarrow> VocabEntry list" where
  "deleteVocabEntry w vocabList =
     (let lowerWord = toLowerCase w
      in filter (\<lambda>e. toLowerCase (word e) \<noteq> lowerWord) vocabList)"

text \<open>
  \<open>updateVocabEntry\<close>: \<open>find\<close> gives the first matching entry, an object of the list,
  and the assignment to its \<open>translation\<close> changes the list at that position. The
  result is \<open>success\<close> and the list written.
\<close>

definition updateVocabEntry :: "string \<Rightarrow> string \<Rightarrow> VocabEntry list \<Rightarrow> bool \<times> VocabEntry list" where
  "updateVocabEntry w tr vocabList =
     (let lowerWord = toLowerCase w;
          i = findIndex (\<lambda>e. toLowerCase (word e) = lowerWord) vocabList
      in if i \<ge> 0
         then (True, vocabList[nat i := (vocabList ! nat i)\<lparr> translation := tr \<rparr>])
         else (False, vocabList))"

text \<open>The invariant of the store: no two entries have the same lower-cased word.\<close>

definition uniqueWords :: "VocabEntry list \<Rightarrow> bool" where
  "uniqueWords vocabList = distinct (map (\<lambda>e. toLowerCase (word e)) vocabList)"

text \<open>The lower-cased word of an entry, the key that every operation compares.\<close>

abbreviation key :: "VocabEntry \<Rightarrow> string" where
  "key e \<equiv> toLowerCase (word e)"

text \<open>A sequence of \<open>saveVocabEntry\<close> calls, each given with the time it reads.\<close>

fun upsertAll :: "(EntryInput \<times> string) list \<Rightarrow> VocabEntry list \<Rightarrow> VocabEntry list" where
  "upsertAll [] vocabList = vocabList"
| "upsertAll (c # cs) vocabList = upsertAll cs (fst (saveVocabEntry (fst c) (snd c) vocabList))"

section \<open>The context window (content script)\<close>







section \<open>The pattern of the scan (content script)\<close>

text \<open>
  The scan escapes each word with \<open>word.replace(/[.*+?^${}()|[\]\\]/g, "\\$&")\<close>, joins the
  results with \<open>|\<close> and builds \<open>new RegExp(`\\b(${...})\\b`, "gi")\<close>. The class of the
  replacement holds the fourteen syntax characters of a pattern.
\<close>

definition backslash :: char where
  "backslash = CHR 0x5C"

definition isSyntaxChar :: "char \<Rightarrow> bool" where
  "isSyntaxChar c = (c \<in> set ''.*+?^${}()|[]'' \<or> c = backslash)"

definition escapeRegExp :: "string \<Rightarrow> string" where
  "escapeRegExp w = concat (map (\<lambda>c. if isSyntaxChar c then [backslash, c] else [c]) w)"

text \<open>\<open>Array.prototype.join\<close> with a separator.\<close>

fun join :: "string \<Rightarrow> string list \<Rightarrow> string" where
  "join sep [] = []"
| "join sep [x] = x"
| "join sep (x # y # ys) = x @ sep @ join sep (y # ys)"

definition patternSource :: "string list \<Rightarrow> string" where
  "patternSource escaped = [backslash] @ ''b('' @ join ''|'' escaped @ '')'' @ [backslash] @ ''b''"

text \<open>
  What \<open>new RegExp\<close> makes of such a source. The model reads the fragment of the pattern
  syntax that the scan can produce: \<open>\b(\<close>, alternatives separated by \<open>|\<close>, each a sequence
  of pattern characters (any character that is not a syntax character, standing for
  itself) and identity escapes (a backslash and a syntax character, standing for that
  character), then \<open>)\b\<close>. The result is the list of the alternatives as literal strings;
  \<open>None\<close> is a source outside the fragment.
\<close>

fun parseAlternatives :: "string \<Rightarrow> string \<Rightarrow> string list \<Rightarrow> (string list \<times> string) option" where
  "parseAlternatives [] cur acc = None"
| "parseAlternatives (c # cs) cur acc =
     (if c = CHR '')'' then Some (acc @ [cur], cs)
      else if c = CHR ''|'' then parseAlternatives cs [] (acc @ [cur])
      else if c = backslash then
        (case cs of
           [] \<Rightarrow> None
         | d # ds \<Rightarrow> if isSyntaxChar d then parseAlternatives ds (cur @ [d]) acc else None)
      else if isSyntaxChar c then None
      else parseAlternatives cs (cur @ [c]) acc)"

definition parsePattern :: "string \<Rightarrow> string list option" where
  "parsePattern src =
     (if take 3 src = [backslash] @ ''b(''
      then (case parseAlternatives (drop 3 src) [] [] of
              None \<Rightarrow> None
            | Some (alts, rest) \<Rightarrow> if rest = [backslash] @ ''b'' then Some alts else None)
      else None)"

text \<open>
  Matching with the flags \<open>gi\<close> and no \<open>u\<close>, against the text of a page, which is a list of
  code units. A word character is one of \<open>[A-Za-z0-9_]\<close>; \<open>\b\<close> holds at a position when
  exactly one of the code units before and after it is a word character, the ends of the
  text counting as none.
\<close>

definition isWordChar :: "codeUnit \<Rightarrow> bool" where
  "isWordChar u =
     ((48 \<le> u \<and> u \<le> 57) \<or> (65 \<le> u \<and> u \<le> 90) \<or> u = 95 \<or> (97 \<le> u \<and> u \<le> 122))"

definition isWordBoundary :: "codeUnit list \<Rightarrow> nat \<Rightarrow> bool" where
  "isWordBoundary text i =
     ((0 < i \<and> i \<le> length text \<and> isWordChar (text ! (i - 1))) \<noteq>
      (i < length text \<and> isWordChar (text ! i)))"

text \<open>
  Two code units match case-insensitively when their canonical forms agree. The
  canonical form of a code unit is its upper-case form when that is a single code unit,
  and is not below 128 for a code unit from 128 on; otherwise it is the code unit
  itself. So a to z and the Latin-1 small letters 224 to 254, the division sign 247
  apart, go 32 down; 181 (the micro sign) and 956 (U+03BC) go to 924 (U+039C); 255 goes
  to 376 (U+0178); and 223, whose upper-case form is two code units, stays. These are
  the canonical forms of all code units below 256 and of all code units from 256 on
  whose canonical form is that of a code unit below 256. \<open>canonicalize\<close> leaves every
  other code unit as it is; as the alternatives of the pattern are stored words, all
  code units of which are below 256, and a code unit of the text is only ever compared
  with a code unit of an alternative, this gives the matches of the pattern exactly.
\<close>

definition canonicalize :: "codeUnit \<Rightarrow> codeUnit" where
  "canonicalize u =
     (if (97 \<le> u \<and> u \<le> 122) \<or> (224 \<le> u \<and> u \<le> 254 \<and> u \<noteq> 247) then u - 32
      else if u = 181 \<or> u = 956 then 924
      else if u = 255 then 376
      else u)"

text \<open>The literal \<open>a\<close> matches \<open>text\<close> at position \<open>i\<close>, case-insensitively.\<close>

definition literalMatch :: "string \<Rightarrow> codeUnit list \<Rightarrow> nat \<Rightarrow> bool" where
  "literalMatch a text i =
     (i + length a \<le> length text \<and>
      map canonicalize (take (length a) (drop i text)) = map canonicalize (units a))"

text \<open>
  The alternatives are tried in order; one is taken when it matches and \<open>\b\<close> holds
  behind it, otherwise the matcher backtracks into the next. The result is the length
  of the match.
\<close>

fun firstAlternative :: "string list \<Rightarrow> codeUnit list \<Rightarrow> nat \<Rightarrow> nat option" where
  "firstAlternative [] text i = None"
| "firstAlternative (a # as) text i =
     (if literalMatch a text i \<and> isWordBoundary text (i + length a) then Some (length a)
      else firstAlternative as text i)"

definition matchAt :: "string list \<Rightarrow> codeUnit list \<Rightarrow> nat \<Rightarrow> nat option" where
  "matchAt alts text i = (if isWordBoundary text i then firstAlternative alts text i else None)"

text \<open>
  \<open>pattern.exec(text)\<close> with \<open>pattern.lastIndex = lastIndex\<close>: the first position from
  \<open>lastIndex\<close> on at which the pattern matches, with the length of the match (the match
  is \<open>match[0]\<close>, its position \<open>match.index\<close>, and \<open>lastIndex\<close> becomes its end), or
  \<open>None\<close> for \<open>null\<close> (and \<open>lastIndex\<close> becomes 0).
\<close>

function regexExec :: "string list \<Rightarrow> codeUnit list \<Rightarrow> nat \<Rightarrow> (nat \<times> nat) option" where
  "regexExec alts text lastIndex =
     (if lastIndex > length text then None
      else (case matchAt alts text lastIndex of
              Some len \<Rightarrow> Some (lastIndex, len)
            | None \<Rightarrow> regexExec alts text (lastIndex + 1)))"
  by pat_completeness auto
termination
  by (relation "measure (\<lambda>(alts, text, lastIndex). Suc (length text) - lastIndex)") auto

declare regexExec.simps [simp del]

section \<open>The page (content script)\<close>

text \<open>
  The part of the page that the scan reads: text nodes and elements with their tag
  name (upper case, as \<open>tagName\<close> gives it), \<open>id\<close>, class list, \<open>contenteditable\<close>
  attribute (\<open>None\<close> when it is absent and the state is inherited) and the two data
  attributes of a marker. A text node holds page text, a list of code units; the
  attributes that the scan reads or writes are strings of the extension or of the store.
  The popup and the tooltip of the extension live in a closed shadow tree below its host
  element, a child of the body with the \<open>id\<close> \<open>vocab-highlighter-root\<close> and no children of
  its own in the page.
\<close>

record Attrs =
  tagName :: string
  ident :: string
  classList :: "string list"
  contentEditable :: "bool option"
  vhTranslation :: "string option"
  vhWord :: "string option"

datatype node = Text "codeUnit list" | Element Attrs "node list"

fun textContent :: "node \<Rightarrow> codeUnit list" where
  "textContent (Text t) = t"
| "textContent (Element a cs) = concat (map textContent cs)"

text \<open>The selector \<open>mark.vh-highlight\<close>.\<close>

fun isMark :: "node \<Rightarrow> bool" where
  "isMark (Text t) = False"
| "isMark (Element a cs) = (tagName a = ''MARK'' \<and> ''vh-highlight'' \<in> set (classList a))"

text \<open>
  \<open>Node.normalize()\<close>, here \<open>normalizeNode\<close>: in the whole subtree, empty text nodes are
  removed and adjacent text nodes are merged into one. \<open>mergeTexts\<close> does this for one
  list of children, from its end.
\<close>

fun mergeText :: "node \<Rightarrow> node list \<Rightarrow> node list" where
  "mergeText (Text s) (Text t # r) = Text (s @ t) # r"
| "mergeText (Text s) r = (if s = [] then r else Text s # r)"
| "mergeText x r = x # r"

definition mergeTexts :: "node list \<Rightarrow> node list" where
  "mergeTexts cs = foldr mergeText cs []"

fun normalizeNode :: "node \<Rightarrow> node" where
  "normalizeNode (Text t) = Text t"
| "normalizeNode (Element a cs) = Element a (mergeTexts (map normalizeNode cs))"

text \<open>
  One round of the loop of \<open>removeHighlights\<close>. The marks are visited in document order,
  and each is replaced in its parent by a text node with its \<open>textContent\<close>, after which
  the parent is normalized. \<open>unwrapFirst\<close> does this for the first mark of the document
  order below an element, \<open>unwrapFirstIn\<close> for a list of children; the flag says that the
  mark was a child of this very list, so that the element above is the parent to
  normalize. \<open>None\<close>: there is no mark.
\<close>

fun unwrapFirst :: "node \<Rightarrow> node option"
  and unwrapFirstIn :: "node list \<Rightarrow> (node list \<times> bool) option" where
  "unwrapFirst (Text t) = None"
| "unwrapFirst (Element a cs) =
     (case unwrapFirstIn cs of
        None \<Rightarrow> None
      | Some (cs', direct) \<Rightarrow>
          Some (if direct then normalizeNode (Element a cs') else Element a cs'))"
| "unwrapFirstIn [] = None"
| "unwrapFirstIn (c # cs) =
     (if isMark c then Some (Text (textContent c) # cs, True)
      else (case unwrapFirst c of
              Some c' \<Rightarrow> Some (c' # cs, False)
            | None \<Rightarrow>
                (case unwrapFirstIn cs of
                   None \<Rightarrow> None
                 | Some (cs', direct) \<Rightarrow> Some (c # cs', direct))))"

text \<open>The number of marks below a node, which every round lowers.\<close>

fun countMarks :: "node \<Rightarrow> nat" where
  "countMarks (Text t) = 0"
| "countMarks (Element a cs) =
     sum_list (map (\<lambda>c. (if isMark c then 1 else 0) + countMarks c) cs)"

text \<open>That it does is what the termination of \<open>removeHighlights\<close> rests on.\<close>

lemma countMarks_mergeText:
  "sum_list (map (\<lambda>c. (if isMark c then 1 else 0) + countMarks c) (mergeText x r)) =
   (if isMark x then 1 else 0) + countMarks x +
   sum_list (map (\<lambda>c. (if isMark c then 1 else 0) + countMarks c) r)"
  by (induction x r rule: mergeText.induct) auto

lemma countMarks_mergeTexts:
  "sum_list (map (\<lambda>c. (if isMark c then 1 else 0) + countMarks c) (mergeTexts cs)) =
   sum_list (map (\<lambda>c. (if isMark c then 1 else 0) + countMarks c) cs)"
  by (induction cs) (simp_all add: mergeTexts_def countMarks_mergeText)

lemma isMark_normalize: "isMark (normalizeNode n) = isMark n"
  by (cases n) simp_all

lemma countMarks_normalize: "countMarks (normalizeNode n) = countMarks n"
proof (induction n)
  case (Text t)
  show ?case by simp
next
  case (Element a cs)
  have "map (\<lambda>c. (if isMark c then 1 else 0) + countMarks c) (map normalizeNode cs) =
        map (\<lambda>c. (if isMark c then 1 else 0) + countMarks c) cs"
    using Element by (simp add: isMark_normalize)
  then show ?case by (simp add: countMarks_mergeTexts del: map_map)
qed

lemma unwrapFirst_countMarks:
  shows "unwrapFirst n = Some n' \<Longrightarrow> countMarks n' < countMarks n \<and> isMark n' = isMark n"
    and "unwrapFirstIn cs = Some (cs', d) \<Longrightarrow>
      sum_list (map (\<lambda>c. (if isMark c then 1 else 0) + countMarks c) cs') <
      sum_list (map (\<lambda>c. (if isMark c then 1 else 0) + countMarks c) cs)"
proof (induction n and cs arbitrary: n' and cs' d rule: unwrapFirst_unwrapFirstIn.induct)
  case (1 t)
  then show ?case by simp
next
  case (2 a cs)
  then obtain cs' d where u: "unwrapFirstIn cs = Some (cs', d)"
    by (auto split: option.splits)
  from 2(1)[OF u] 2(2) u show ?case
    by (auto simp: countMarks_mergeTexts countMarks_normalize isMark_normalize
        simp del: normalizeNode.simps split: if_splits)
next
  case 3
  then show ?case by simp
next
  case (4 c cs)
  show ?case
  proof (cases "isMark c")
    case True
    with 4(3) show ?thesis by auto
  next
    case False
    show ?thesis
    proof (cases "unwrapFirst c")
      case (Some c')
      with False 4(1)[of c'] 4(3) show ?thesis by auto
    next
      case None
      with False 4(3) obtain cs1 d1 where u: "unwrapFirstIn cs = Some (cs1, d1)"
        by (auto split: option.splits)
      from 4(2)[OF False None u] False None u 4(3) show ?thesis by auto
    qed
  qed
qed

text \<open>
  \<open>removeHighlights\<close>: the rounds are repeated until no mark is left. The list of marks
  that the source walks is the one \<open>querySelectorAll\<close> gave before the first round; a mark
  of that list that is no longer in the document when its turn comes was inside a mark
  replaced earlier, and replacing it in its detached parent changes nothing in the
  document. So the marks that count are, in this order, the first marks of the
  successive documents. The argument is the body of the page, an element that is not
  itself a mark.
\<close>

function removeHighlights :: "node \<Rightarrow> node" where
  "removeHighlights d = (case unwrapFirst d of None \<Rightarrow> d | Some d' \<Rightarrow> removeHighlights d')"
  by pat_completeness auto
termination
  by (relation "measure countMarks") (auto simp: unwrapFirst_countMarks)

declare removeHighlights.simps [simp del]

section \<open>The scan (content script)\<close>

text \<open>
  \<open>vocabMap\<close>: the map from lower-cased words to entries that the scan fills entry by
  entry, so that a later entry with the same key replaces an earlier one.
\<close>

definition vocabMap :: "VocabEntry list \<Rightarrow> codeUnit list \<Rightarrow> VocabEntry option" where
  "vocabMap vocabList = map_of (rev (map (\<lambda>e. (units (toLowerCase (word e)), e)) vocabList))"

text \<open>
  The marker that the scan creates for a match: a \<open>mark\<close> element of class
  \<open>vh-highlight\<close> holding the matched text, with the data attributes of the entry found
  for the lower-cased match, if any.
\<close>

definition markNode :: "codeUnit list \<Rightarrow> VocabEntry option \<Rightarrow> node" where
  "markNode m entry =
     Element \<lparr> tagName = ''MARK'', ident = [], classList = [''vh-highlight''],
               contentEditable = None,
               vhTranslation = map_option translation entry,
               vhWord = map_option word entry \<rparr> [Text m]"

text \<open>
  The loop \<open>while ((match = pattern.exec(text)) !== null)\<close> over one text node, with the
  text that remains appended after it. \<open>lastIndex\<close> is both the variable of the loop and
  \<open>pattern.lastIndex\<close>, which are equal whenever \<open>exec\<close> is called; \<open>frag\<close> is the
  fragment built so far. An empty match leaves \<open>lastIndex\<close> where it is, and the loop then
  never ends: the function has no value (\<open>None\<close>) there.
\<close>

partial_function (option) wrapMatches ::
  "string list \<Rightarrow> (codeUnit list \<Rightarrow> VocabEntry option) \<Rightarrow> codeUnit list \<Rightarrow> nat \<Rightarrow>
     node list \<Rightarrow> nat \<Rightarrow> (node list \<times> nat) option" where
  [code]: "wrapMatches alts vmap text lastIndex frag matchCount =
     (case regexExec alts text lastIndex of
        None \<Rightarrow>
          Some (frag @ (if lastIndex < length text then [Text (drop lastIndex text)] else []),
                matchCount)
      | Some (index, len) \<Rightarrow>
          wrapMatches alts vmap text (index + len)
            (frag @
             (if index > lastIndex then [Text (take (index - lastIndex) (drop lastIndex text))]
              else []) @
             [markNode (take len (drop index text))
                (vmap (toLowerCaseUnits (take len (drop index text))))])
            (matchCount + 1))"

text \<open>
  The filter of the tree walker. It looks at the parent element of a text node: its tag
  name, whether it or an ancestor is the root of the extension's own user interface
  (\<open>closest("#vocab-highlighter-root")\<close>), its class list, and \<open>isContentEditable\<close>, which
  an element without the attribute inherits. \<open>WalkCtx\<close> carries what the ancestors of the
  parent contribute.
\<close>

definition SKIP_ELEMENTS :: "string list" where
  "SKIP_ELEMENTS = [''SCRIPT'', ''STYLE'', ''TEXTAREA'', ''INPUT'', ''SELECT'', ''NOSCRIPT'',
     ''SVG'', ''CANVAS'', ''VIDEO'', ''AUDIO'', ''IFRAME'', ''OBJECT'', ''EMBED'']"

record WalkCtx =
  inRoot :: bool
  editable :: bool

definition isContentEditable :: "WalkCtx \<Rightarrow> Attrs \<Rightarrow> bool" where
  "isContentEditable env a = (case contentEditable a of Some b \<Rightarrow> b | None \<Rightarrow> editable env)"

definition closestRoot :: "WalkCtx \<Rightarrow> Attrs \<Rightarrow> bool" where
  "closestRoot env a = (ident a = ''vocab-highlighter-root'' \<or> inRoot env)"

definition enter :: "WalkCtx \<Rightarrow> Attrs \<Rightarrow> WalkCtx" where
  "enter env a = \<lparr> inRoot = closestRoot env a, editable = isContentEditable env a \<rparr>"

definition acceptNode :: "WalkCtx \<Rightarrow> Attrs \<Rightarrow> bool" where
  "acceptNode env parent =
     (if tagName parent \<in> set SKIP_ELEMENTS then False
      else if closestRoot env parent then False
      else if ''vh-highlight'' \<in> set (classList parent) then False
      else if isContentEditable env parent then False
      else True)"

text \<open>
  The walker collects the accepted text nodes below the body in document order, and the
  loop replaces each one that is not empty and that the pattern matches (with
  \<open>lastIndex\<close> 0, where every \<open>test\<close> starts) by its fragment. \<open>highlightNode\<close> gives the
  nodes that stand for a node afterwards and the number of matches in it;
  \<open>highlightChildren\<close> does this for the children of the element \<open>parent\<close>.
\<close>

fun highlightNode ::
    "string list \<Rightarrow> (codeUnit list \<Rightarrow> VocabEntry option) \<Rightarrow> WalkCtx \<Rightarrow> Attrs \<Rightarrow> node \<Rightarrow>
       (node list \<times> nat) option"
  and highlightChildren ::
    "string list \<Rightarrow> (codeUnit list \<Rightarrow> VocabEntry option) \<Rightarrow> WalkCtx \<Rightarrow> Attrs \<Rightarrow>
       node list \<Rightarrow> (node list \<times> nat) option" where
  "highlightNode alts vmap env parent (Text t) =
     (if acceptNode env parent \<and> t \<noteq> [] \<and> regexExec alts t 0 \<noteq> None
      then wrapMatches alts vmap t 0 [] 0
      else Some ([Text t], 0))"
| "highlightNode alts vmap env parent (Element a cs) =
     (case highlightChildren alts vmap (enter env parent) a cs of
        None \<Rightarrow> None
      | Some (cs', n) \<Rightarrow> Some ([Element a cs'], n))"
| "highlightChildren alts vmap env parent [] = Some ([], 0)"
| "highlightChildren alts vmap env parent (c # cs) =
     (case highlightNode alts vmap env parent c of
        None \<Rightarrow> None
      | Some (ns, n) \<Rightarrow>
          (case highlightChildren alts vmap env parent cs of
             None \<Rightarrow> None
           | Some (ms, m) \<Rightarrow> Some (ns @ ms, n + m)))"

text \<open>
  The badge. \<open>showBadge(count)\<close> creates a \<open>div\<close> of class \<open>vh-badge\<close> whose text is
  \<open>count\<close> in decimal between two fixed pieces of text, of the code units U+672C, U+9875,
  U+53D1, U+73B0 and a space before it, and a space, U+4E2A, U+751F and U+8BCD after it.
\<close>

fun decimal :: "nat \<Rightarrow> codeUnit list" where
  "decimal n = (if n < 10 then [48 + int n] else decimal (n div 10) @ [48 + int (n mod 10)])"

declare decimal.simps [simp del]

definition badgeText :: "nat \<Rightarrow> codeUnit list" where
  "badgeText count =
     [0x672C, 0x9875, 0x53D1, 0x73B0, 0x20] @ decimal count @ [0x20, 0x4E2A, 0x751F, 0x8BCD]"

definition badge :: "nat \<Rightarrow> node" where
  "badge count =
     Element \<lparr> tagName = ''DIV'', ident = [], classList = [''vh-badge''],
               contentEditable = None, vhTranslation = None, vhWord = None \<rparr>
       [Text (badgeText count)]"

text \<open>
  The state that the scan works on: the body of the page, and whether the variable
  \<open>activeBadge\<close> holds a badge (it is \<open>null\<close> when the script starts). A badge is appended
  to the body, and it is taken that nothing else adds a child to the body behind it, so
  the badge that \<open>activeBadge\<close> holds is the last child of the body. The body is an
  element.
\<close>

record page =
  body :: node
  activeBadge :: bool

text \<open>
  \<open>showBadge\<close>: the active badge, if there is one, is removed from the body, and the new
  badge is appended to the body and becomes the active one.
\<close>

definition showBadge :: "nat \<Rightarrow> page \<Rightarrow> page" where
  "showBadge count p =
     (case body p of
        Text t \<Rightarrow> p
      | Element a cs \<Rightarrow>
          \<lparr> body = Element a ((if activeBadge p then butlast cs else cs) @ [badge count]),
            activeBadge = True \<rparr>)"

text \<open>
  \<open>showBadge\<close> also starts a timer. After five seconds its callback adds the class
  \<open>vh-fade-out\<close> to the badge, which changes nothing that a scan reads, and half a
  second later a second callback removes the badge from the body and, when it is still
  the active one, sets \<open>activeBadge\<close> to \<open>null\<close>. \<open>badgeTimeout\<close> is this second callback
  for the active badge; for a badge that \<open>showBadge\<close> has replaced in the meantime it
  changes nothing in the page.
\<close>

definition badgeTimeout :: "page \<Rightarrow> page" where
  "badgeTimeout p =
     (if activeBadge p
      then (case body p of
              Text t \<Rightarrow> p
            | Element a cs \<Rightarrow> \<lparr> body = Element a (butlast cs), activeBadge = False \<rparr>)
      else p)"

text \<open>
  \<open>scanPageForVocab\<close>, given the list that the background answers with. The result is
  the match count and the page afterwards, with the badge that shows the count when
  there is a match; \<open>None\<close> when the scan does not come to an end. The ancestors of the
  body are taken to be neither editable nor the extension's root.
\<close>

definition scanPageForVocab :: "VocabEntry list \<Rightarrow> page \<Rightarrow> (nat \<times> page) option" where
  "scanPageForVocab vocabList p =
     (let body1 = removeHighlights (body p)
      in if vocabList = [] then Some (0, p\<lparr> body := body1 \<rparr>)
         else
           (case parsePattern (patternSource (map (\<lambda>e. escapeRegExp (word e)) vocabList)) of
              None \<Rightarrow> None
            | Some pattern \<Rightarrow>
                (case body1 of
                   Text t \<Rightarrow> Some (0, p\<lparr> body := body1 \<rparr>)
                 | Element a cs \<Rightarrow>
                     (case highlightChildren pattern (vocabMap vocabList)
                             \<lparr> inRoot = False, editable = False \<rparr> a cs of
                        None \<Rightarrow> None
                      | Some (cs', matchCount) \<Rightarrow>
                          Some (matchCount,
                                if matchCount > 0
                                then showBadge matchCount (p\<lparr> body := Element a cs' \<rparr>)
                                else p\<lparr> body := Element a cs' \<rparr>)))))"

text \<open>
  For examples: an element with a tag name only, an entry with a translation only, and
  the page that the script finds when it starts.
\<close>

definition plainElement :: "string \<Rightarrow> node list \<Rightarrow> node" where
  "plainElement t cs =
     Element \<lparr> tagName = t, ident = [], classList = [], contentEditable = None,
               vhTranslation = None, vhWord = None \<rparr> cs"

definition vocabEntry :: "string \<Rightarrow> string \<Rightarrow> VocabEntry" where
  "vocabEntry w tr = \<lparr> word = w, translation = tr, ctx = [], sourceUrl = [], addedAt = [] \<rparr>"

definition loaded :: "node \<Rightarrow> page" where
  "loaded b = \<lparr> body = b, activeBadge = False \<rparr>"

section \<open>Properties of pages\<close>

text \<open>
  A list of children is normalized when it has no empty text node and no two adjacent
  text nodes; this depends on the texts and on where the elements are only. A node is
  normalized when every list of children below it is, which is the state that
  \<open>Node.normalize()\<close> establishes.
\<close>

fun skeleton :: "node list \<Rightarrow> codeUnit list option list" where
  "skeleton [] = []"
| "skeleton (Text t # r) = Some t # skeleton r"
| "skeleton (Element a cs # r) = None # skeleton r"

fun noAdjacentTexts :: "codeUnit list option list \<Rightarrow> bool" where
  "noAdjacentTexts [] = True"
| "noAdjacentTexts (Some s # Some t # r) = False"
| "noAdjacentTexts (Some s # r) = (s \<noteq> [] \<and> noAdjacentTexts r)"
| "noAdjacentTexts (None # r) = noAdjacentTexts r"

definition isNormalizedList :: "node list \<Rightarrow> bool" where
  "isNormalizedList cs = noAdjacentTexts (skeleton cs)"

fun isNormalized :: "node \<Rightarrow> bool" where
  "isNormalized (Text t) = True"
| "isNormalized (Element a cs) = (isNormalizedList cs \<and> (\<forall>c \<in> set cs. isNormalized c))"

text \<open>
  The page with every mark replaced by its text and every list of children merged, in
  one pass.
\<close>

fun unwrapAll :: "node \<Rightarrow> node" where
  "unwrapAll (Text t) = Text t"
| "unwrapAll (Element a cs) =
     Element a (mergeTexts (map (\<lambda>c. if isMark c then Text (textContent c) else unwrapAll c) cs))"

text \<open>What \<open>unwrapAll\<close> puts in the place of a child.\<close>

abbreviation textOfMark :: "node \<Rightarrow> node" where
  "textOfMark c \<equiv> (if isMark c then Text (textContent c) else unwrapAll c)"

text \<open>
  Outside marks, every element has a mark among its children or a normalized list of
  children: the only places that are not normalized are ones that the removal of a mark
  will normalize.
\<close>

fun normalizedUpToMarks :: "node \<Rightarrow> bool" where
  "normalizedUpToMarks (Text t) = True"
| "normalizedUpToMarks (Element a cs) =
     (((\<exists>c \<in> set cs. isMark c) \<or> isNormalizedList cs) \<and>
      (\<forall>c \<in> set cs. \<not> isMark c \<longrightarrow> normalizedUpToMarks c))"

text \<open>A mark with a mark somewhere inside it.\<close>

fun nestedMarks :: "node \<Rightarrow> bool" where
  "nestedMarks (Text t) = False"
| "nestedMarks (Element a cs) = (\<exists>c \<in> set cs. (isMark c \<and> countMarks c > 0) \<or> nestedMarks c)"

text \<open>The nodes that a fragment is made of: text nodes and new markers.\<close>

definition fragmentNode :: "node \<Rightarrow> bool" where
  "fragmentNode x = ((\<exists>s. x = Text s) \<or> (\<exists>m e. x = markNode m e))"

text \<open>
  A state in which the active badge, if there is one, is where \<open>showBadge\<close> put it: it is
  the last child of the body, and it is a badge with some count. Every state that scans
  and the timer of the badge lead to from the start of the script is of this kind.
\<close>

definition badgeInPlace :: "page \<Rightarrow> bool" where
  "badgeInPlace p =
     (activeBadge p \<longrightarrow> (\<exists>a cs count. body p = Element a (cs @ [badge count])))"

text \<open>A word that is a decimal number: it is not empty and all its characters are digits.\<close>

definition isDecimal :: "string \<Rightarrow> bool" where
  "isDecimal w = (w \<noteq> [] \<and> (\<forall>c \<in> set w. 48 \<le> (of_char c :: int) \<and> (of_char c :: int) \<le> 57))"

section \<open>What a scan is to mark\<close>






section \<open>The write queue (background service worker)\<close>

text \<open>
  The three mutations of the store, each with what its function does to the list between
  its read and its write. An upsert carries the time that it reads when it runs.
\<close>

datatype mutation =
    Upsert EntryInput string
  | Remove string
  | UpdateTranslation string string

fun applyMutation :: "mutation \<Rightarrow> VocabEntry list \<Rightarrow> VocabEntry list" where
  "applyMutation (Upsert entry now) vocabList = fst (saveVocabEntry entry now vocabList)"
| "applyMutation (Remove w) vocabList = deleteVocabEntry w vocabList"
| "applyMutation (UpdateTranslation w tr) vocabList = snd (updateVocabEntry w tr vocabList)"

text \<open>
  Every mutation is \<open>serializedWrite(async () => { read; change; write; return })\<close>, and
  \<open>serializedWrite(fn)\<close> is \<open>writeQueue = writeQueue.then(fn, fn); return writeQueue\<close>.
  So the queue is a chain of promises, one per call, in the order of the calls; the
  first is chained on \<open>Promise.resolve()\<close>. A promise \<open>p.then(f, g)\<close> calls \<open>f\<close> once \<open>p\<close> is
  fulfilled and \<open>g\<close> once \<open>p\<close> is rejected; where the handler is missing, it takes the
  outcome of \<open>p\<close> without calling anything.

  The function of a task, once called, awaits \<open>chrome.storage.local.get\<close>, then computes
  the new list from the list read, awaits \<open>chrome.storage.local.set\<close> with it, and returns.
  A storage call that fails, like any exception in the function, rejects the promise of
  the task.
\<close>

datatype handler = Call | Missing

datatype phase =
    Queued
  | Reading
  | Writing "VocabEntry list"
  | Fulfilled
  | Rejected

record task =
  fn :: mutation
  onFulfilled :: handler
  onRejected :: handler
  phase :: phase
  called :: bool

record queue =
  storage :: "VocabEntry list"
  tasks :: "task list"

definition settled :: "phase \<Rightarrow> bool" where
  "settled p = (p = Fulfilled \<or> p = Rejected)"

definition serializedWrite :: "mutation \<Rightarrow> queue \<Rightarrow> queue" where
  "serializedWrite f s =
     s\<lparr> tasks := tasks s @
          [\<lparr> fn = f, onFulfilled = Call, onRejected = Call, phase = Queued, called = False \<rparr>] \<rparr>"

text \<open>
  What can happen next, one event at a time (the service worker is single-threaded): a
  new call of \<open>serializedWrite\<close>; the reaction of the \<open>i\<close>-th promise to the outcome of the
  one before it; and the completion, with success or failure, of the storage read or
  write that the \<open>i\<close>-th function awaits. A read gives the list that is stored at that
  moment, a successful write stores its list, a failed write stores nothing.
\<close>

datatype event =
    Submit mutation
  | React nat
  | ReadDone nat
  | ReadFailed nat
  | WriteDone nat
  | WriteFailed nat

text \<open>The outcome of the promise that the \<open>i\<close>-th task is chained on, once it has one.\<close>

definition chainedOn :: "task list \<Rightarrow> nat \<Rightarrow> phase option" where
  "chainedOn ts i =
     (if i = 0 then Some Fulfilled
      else if settled (phase (ts ! (i - 1))) then Some (phase (ts ! (i - 1)))
      else None)"

definition react :: "phase \<Rightarrow> task \<Rightarrow> task" where
  "react outcome t =
     (case (if outcome = Fulfilled then onFulfilled t else onRejected t) of
        Call \<Rightarrow> t\<lparr> phase := Reading, called := True \<rparr>
      | Missing \<Rightarrow> t\<lparr> phase := outcome \<rparr>)"

fun fire :: "event \<Rightarrow> queue \<Rightarrow> queue option" where
  "fire (Submit f) s = Some (serializedWrite f s)"
| "fire (React i) s =
     (if i < length (tasks s) \<and> phase (tasks s ! i) = Queued
      then (case chainedOn (tasks s) i of
              None \<Rightarrow> None
            | Some outcome \<Rightarrow> Some (s\<lparr> tasks := (tasks s)[i := react outcome (tasks s ! i)] \<rparr>))
      else None)"
| "fire (ReadDone i) s =
     (if i < length (tasks s) \<and> phase (tasks s ! i) = Reading
      then Some (s\<lparr> tasks := (tasks s)[i := (tasks s ! i)
                   \<lparr> phase := Writing (applyMutation (fn (tasks s ! i)) (storage s)) \<rparr>] \<rparr>)
      else None)"
| "fire (ReadFailed i) s =
     (if i < length (tasks s) \<and> phase (tasks s ! i) = Reading
      then Some (s\<lparr> tasks := (tasks s)[i := (tasks s ! i)\<lparr> phase := Rejected \<rparr>] \<rparr>)
      else None)"
| "fire (WriteDone i) s =
     (if i < length (tasks s)
      then (case phase (tasks s ! i) of
              Writing vocabList \<Rightarrow>
                Some (s\<lparr> storage := vocabList,
                         tasks := (tasks s)[i := (tasks s ! i)\<lparr> phase := Fulfilled \<rparr>] \<rparr>)
            | _ \<Rightarrow> None)
      else None)"
| "fire (WriteFailed i) s =
     (if i < length (tasks s)
      then (case phase (tasks s ! i) of
              Writing vocabList \<Rightarrow>
                Some (s\<lparr> tasks := (tasks s)[i := (tasks s ! i)\<lparr> phase := Rejected \<rparr>] \<rparr>)
            | _ \<Rightarrow> None)
      else None)"

text \<open>A run: the events in the order in which they happen; \<open>None\<close> when one of them cannot.\<close>

fun run :: "event list \<Rightarrow> queue \<Rightarrow> queue option" where
  "run [] s = Some s"
| "run (e # es) s = (case fire e s of None \<Rightarrow> None | Some s' \<Rightarrow> run es s')"

definition initial :: "VocabEntry list \<Rightarrow> queue" where
  "initial vocabList = \<lparr> storage = vocabList, tasks = [] \<rparr>"

text \<open>The mutations that a run submits, in the order of their submission.\<close>

fun submitted :: "event list \<Rightarrow> mutation list" where
  "submitted [] = []"
| "submitted (Submit f # es) = f # submitted es"
| "submitted (e # es) = submitted es"

fun isSubmit :: "event \<Rightarrow> bool" where
  "isSubmit (Submit f) = True"
| "isSubmit e = False"

text \<open>
  The steps that a task still has before it: reaction, read and write for a queued one.
\<close>

fun stepsLeft :: "phase \<Rightarrow> nat" where
  "stepsLeft Queued = 3"
| "stepsLeft Reading = 2"
| "stepsLeft (Writing vocabList) = 1"
| "stepsLeft Fulfilled = 0"
| "stepsLeft Rejected = 0"

definition remaining :: "queue \<Rightarrow> nat" where
  "remaining s = sum_list (map (\<lambda>t. stepsLeft (phase t)) (tasks s))"

text \<open>The fulfilled mutations of a list of tasks, applied in their order.\<close>

abbreviation applied :: "VocabEntry list \<Rightarrow> task list \<Rightarrow> VocabEntry list" where
  "applied start ts \<equiv>
     foldl (\<lambda>vocabList f. applyMutation f vocabList) start
       (map fn (filter (\<lambda>t. phase t = Fulfilled) ts))"

text \<open>
  The state of a queue whose tasks all come from \<open>serializedWrite\<close>: the tasks before some
  position are settled and were called, the one at that position is the only one that
  may be under way, with the list it is about to write computed from the list stored,
  all later ones are queued, and the list stored is the result of the fulfilled
  mutations in their order.
\<close>

definition underWay :: "VocabEntry list \<Rightarrow> task \<Rightarrow> bool" where
  "underWay stored t =
     (case phase t of
        Queued \<Rightarrow> True
      | Reading \<Rightarrow> called t
      | Writing vocabList \<Rightarrow> called t \<and> vocabList = applyMutation (fn t) stored
      | Fulfilled \<Rightarrow> False
      | Rejected \<Rightarrow> False)"

definition serial :: "VocabEntry list \<Rightarrow> queue \<Rightarrow> bool" where
  "serial start s =
     ((\<forall>t \<in> set (tasks s). onFulfilled t = Call \<and> onRejected t = Call) \<and>
      (\<exists>finished waiting.
         tasks s = finished @ waiting \<and>
         (\<forall>t \<in> set finished. settled (phase t) \<and> called t) \<and>
         (waiting \<noteq> [] \<longrightarrow> underWay (storage s) (hd waiting)) \<and>
         (\<forall>t \<in> set (tl waiting). phase t = Queued) \<and>
         storage s =
           foldl (\<lambda>vocabList f. applyMutation f vocabList) start
             (map fn (filter (\<lambda>t. phase t = Fulfilled) finished))))"

text \<open>For examples: an upsert without context and source URL.\<close>

definition upsertOf :: "string \<Rightarrow> string \<Rightarrow> string \<Rightarrow> mutation" where
  "upsertOf w tr now =
     Upsert \<lparr> inWord = w, inTranslation = tr, inContext = None, inSourceUrl = None \<rparr> now"

section \<open>Evaluating strings\<close>

lemmas lower_eval = toLowerCase_def toLowerCaseChar_def isUpperCaseChar_def

lemma length_toLowerCase: "length (toLowerCase s) = length s"
  by (simp add: toLowerCase_def)

section \<open>Facts about \<open>findIndex\<close>\<close>

lemma findIndex_ge: "findIndex P xs \<ge> -1"
  by (induction xs) (auto simp: Let_def)

lemma findIndex_none: "findIndex P xs < 0 \<longleftrightarrow> (\<forall>x \<in> set xs. \<not> P x)"
  by (induction xs) (auto simp: Let_def)

lemma findIndex_found:
  "findIndex P xs \<ge> 0 \<Longrightarrow>
     nat (findIndex P xs) < length xs \<and> P (xs ! nat (findIndex P xs)) \<and>
     (\<forall>j < nat (findIndex P xs). \<not> P (xs ! j))"
proof (induction xs)
  case Nil
  then show ?case by simp
next
  case (Cons x xs)
  show ?case
  proof (cases "P x")
    case True
    then show ?thesis by simp
  next
    case False
    with Cons.prems have r: "findIndex P xs \<ge> 0"
      by (auto simp: Let_def split: if_splits)
    then have eq: "nat (findIndex P (x # xs)) = Suc (nat (findIndex P xs))"
      using False by (simp add: Let_def nat_add_distrib)
    from Cons.IH[OF r] False show ?thesis
      unfolding eq by (auto simp: less_Suc_eq_0_disj)
  qed
qed

lemma findIndex_first:
  "i < length xs \<Longrightarrow> P (xs ! i) \<Longrightarrow> (\<forall>j < i. \<not> P (xs ! j)) \<Longrightarrow> findIndex P xs = int i"
proof -
  assume i: "i < length xs" and p: "P (xs ! i)" and m: "\<forall>j < i. \<not> P (xs ! j)"
  from i p have "\<not> (\<forall>x \<in> set xs. \<not> P x)" by auto
  then have ge: "findIndex P xs \<ge> 0" using findIndex_none[of P xs] by linarith
  let ?k = "nat (findIndex P xs)"
  from findIndex_found[OF ge] have k: "?k < length xs" "P (xs ! ?k)" "\<forall>j < ?k. \<not> P (xs ! j)"
    by auto
  have "?k = i"
  proof (rule ccontr)
    assume "?k \<noteq> i"
    then consider "?k < i" | "i < ?k" by linarith
    then show False using k m p by cases auto
  qed
  with ge show ?thesis by simp
qed

lemma findIndex_some: "(\<exists>x \<in> set xs. P x) \<longleftrightarrow> findIndex P xs \<ge> 0"
  using findIndex_none[of P xs] by auto

text \<open>The two shapes of the list that \<open>saveVocabEntry\<close> writes.\<close>

lemma saveVocabEntry_cases:
  "(\<exists>i < length vocabList. key (vocabList ! i) = toLowerCase (inWord entry) \<and>
       (\<forall>j < i. key (vocabList ! j) \<noteq> toLowerCase (inWord entry)) \<and>
       saveVocabEntry entry now vocabList =
         (vocabList[i := \<lparr> word = inWord entry, translation = inTranslation entry,
                            ctx = orEmpty (inContext entry), sourceUrl = orEmpty (inSourceUrl entry),
                            addedAt = addedAt (vocabList ! i) \<rparr>], True)) \<or>
   ((\<forall>e \<in> set vocabList. key e \<noteq> toLowerCase (inWord entry)) \<and>
       saveVocabEntry entry now vocabList =
         (vocabList @ [\<lparr> word = inWord entry, translation = inTranslation entry,
                           ctx = orEmpty (inContext entry), sourceUrl = orEmpty (inSourceUrl entry),
                           addedAt = now \<rparr>], False))"
proof (cases "findIndex (\<lambda>e. key e = toLowerCase (inWord entry)) vocabList \<ge> 0")
  case True
  from findIndex_found[OF True] True show ?thesis
    by (intro disjI1 exI[of _ "nat (findIndex (\<lambda>e. key e = toLowerCase (inWord entry)) vocabList)"])
       (simp add: saveVocabEntry_def Let_def)
next
  case False
  then have "\<forall>e \<in> set vocabList. key e \<noteq> toLowerCase (inWord entry)"
    using findIndex_none[of "\<lambda>e. key e = toLowerCase (inWord entry)" vocabList] by auto
  with False show ?thesis
    by (intro disjI2) (simp add: saveVocabEntry_def Let_def)
qed

lemma saveVocabEntry_keys:
  "set (map key (fst (saveVocabEntry entry now vocabList))) =
     insert (toLowerCase (inWord entry)) (set (map key vocabList))"
  using saveVocabEntry_cases[of vocabList entry now]
proof (elim disjE exE conjE)
  fix i
  assume i: "i < length vocabList" and k: "key (vocabList ! i) = toLowerCase (inWord entry)"
    and eq: "saveVocabEntry entry now vocabList =
         (vocabList[i := \<lparr> word = inWord entry, translation = inTranslation entry,
                            ctx = orEmpty (inContext entry), sourceUrl = orEmpty (inSourceUrl entry),
                            addedAt = addedAt (vocabList ! i) \<rparr>], True)"
  have "map key (fst (saveVocabEntry entry now vocabList)) = (map key vocabList)[i := key (vocabList ! i)]"
    by (simp add: eq map_update k)
  also have "\<dots> = map key vocabList"
    using i by (metis list_update_id map_update)
  finally have m: "map key (fst (saveVocabEntry entry now vocabList)) = map key vocabList" .
  have "toLowerCase (inWord entry) \<in> set (map key vocabList)"
    using i k by (metis length_map nth_map nth_mem)
  then show ?thesis unfolding m by auto
next
  assume "saveVocabEntry entry now vocabList =
         (vocabList @ [\<lparr> word = inWord entry, translation = inTranslation entry,
                           ctx = orEmpty (inContext entry), sourceUrl = orEmpty (inSourceUrl entry),
                           addedAt = now \<rparr>], False)"
  then show ?thesis by simp
qed

lemma saveVocabEntry_unique:
  "uniqueWords vocabList \<Longrightarrow> uniqueWords (fst (saveVocabEntry entry now vocabList))"
  using saveVocabEntry_cases[of vocabList entry now]
proof (elim disjE exE conjE)
  fix i
  assume u: "uniqueWords vocabList"
    and i: "i < length vocabList" and k: "key (vocabList ! i) = toLowerCase (inWord entry)"
    and eq: "saveVocabEntry entry now vocabList =
         (vocabList[i := \<lparr> word = inWord entry, translation = inTranslation entry,
                            ctx = orEmpty (inContext entry), sourceUrl = orEmpty (inSourceUrl entry),
                            addedAt = addedAt (vocabList ! i) \<rparr>], True)"
  have "map key (fst (saveVocabEntry entry now vocabList)) = (map key vocabList)[i := key (vocabList ! i)]"
    by (simp add: eq map_update k)
  also have "\<dots> = map key vocabList"
    using i by (metis list_update_id map_update)
  finally show ?thesis using u by (simp add: uniqueWords_def)
next
  assume u: "uniqueWords vocabList"
    and n: "\<forall>e \<in> set vocabList. key e \<noteq> toLowerCase (inWord entry)"
    and eq: "saveVocabEntry entry now vocabList =
         (vocabList @ [\<lparr> word = inWord entry, translation = inTranslation entry,
                           ctx = orEmpty (inContext entry), sourceUrl = orEmpty (inSourceUrl entry),
                           addedAt = now \<rparr>], False)"
  show ?thesis using u n by (auto simp: eq uniqueWords_def)
qed

lemma deleteVocabEntry_unique:
  "uniqueWords vocabList \<Longrightarrow> uniqueWords (deleteVocabEntry w vocabList)"
  by (simp add: uniqueWords_def deleteVocabEntry_def distinct_map_filter)

lemma updateVocabEntry_words:
  "map word (snd (updateVocabEntry w tr vocabList)) = map word vocabList \<and>
   map ctx (snd (updateVocabEntry w tr vocabList)) = map ctx vocabList \<and>
   map addedAt (snd (updateVocabEntry w tr vocabList)) = map addedAt vocabList"
proof (cases "findIndex (\<lambda>e. key e = toLowerCase w) vocabList \<ge> 0")
  case True
  let ?i = "nat (findIndex (\<lambda>e. key e = toLowerCase w) vocabList)"
  from findIndex_found[OF True] have "?i < length vocabList" by simp
  then show ?thesis using True
    by (simp add: updateVocabEntry_def Let_def map_update list_update_same_conv)
next
  case False
  then show ?thesis by (simp add: updateVocabEntry_def Let_def)
qed

lemma updateVocabEntry_unique:
  "uniqueWords vocabList \<Longrightarrow> uniqueWords (snd (updateVocabEntry w tr vocabList))"
proof -
  assume u: "uniqueWords vocabList"
  have "map key (snd (updateVocabEntry w tr vocabList)) =
        map toLowerCase (map word (snd (updateVocabEntry w tr vocabList)))"
    by simp
  also have "\<dots> = map key vocabList"
    using updateVocabEntry_words[of w tr vocabList] by simp
  finally show ?thesis using u by (simp add: uniqueWords_def)
qed

lemma upsertAll_unique:
  "uniqueWords vocabList \<Longrightarrow> uniqueWords (upsertAll calls vocabList)"
  by (induction calls arbitrary: vocabList) (auto simp: saveVocabEntry_unique)

lemma upsertAll_keys:
  "set (map key (upsertAll calls vocabList)) =
     set (map key vocabList) \<union> set (map (\<lambda>c. toLowerCase (inWord (fst c))) calls)"
proof (induction calls arbitrary: vocabList)
  case Nil
  then show ?case by simp
next
  case (Cons c cs)
  show ?case
    using Cons.IH[of "fst (saveVocabEntry (fst c) (snd c) vocabList)"]
      saveVocabEntry_keys[of "fst c" "snd c" vocabList]
    by auto
qed

lemma distinct_map_one:
  "distinct (map f xs) \<Longrightarrow> k \<in> set (map f xs) \<Longrightarrow> length (filter (\<lambda>x. f x = k) xs) = 1"
proof (induction xs)
  case Nil
  then show ?case by simp
next
  case (Cons x xs)
  show ?case
  proof (cases "f x = k")
    case True
    with Cons.prems have "\<forall>y \<in> set xs. f y \<noteq> k" by (auto simp: image_iff)
    then have "filter (\<lambda>x. f x = k) xs = []" by (simp add: filter_empty_conv)
    with True show ?thesis by simp
  next
    case False
    with Cons show ?thesis by auto
  qed
qed

text \<open>
  Claim C3. From a store with at most one entry per lower-cased word, each of the three
  mutations gives such a store again; so does any sequence of \<open>saveVocabEntry\<close> calls,
  after which the list holds exactly one entry for the lower-cased word of every call,
  whatever the letter-casing of the calls.
\<close>

theorem store_unique_invariant:
  "uniqueWords vocabList \<Longrightarrow>
     uniqueWords (fst (saveVocabEntry entry now vocabList)) \<and>
     uniqueWords (deleteVocabEntry w vocabList) \<and>
     uniqueWords (snd (updateVocabEntry w tr vocabList)) \<and>
     uniqueWords (upsertAll calls vocabList) \<and>
     (\<forall>c \<in> set calls.
        length (filter (\<lambda>e. toLowerCase (word e) = toLowerCase (inWord (fst c)))
                  (upsertAll calls vocabList)) = 1)"
proof -
  assume u: "uniqueWords vocabList"
  have one: "length (filter (\<lambda>e. key e = toLowerCase (inWord (fst c))) (upsertAll calls vocabList)) = 1"
    if "c \<in> set calls" for c
  proof -
    have "toLowerCase (inWord (fst c)) \<in> set (map key (upsertAll calls vocabList))"
      unfolding upsertAll_keys using that by auto
    moreover have "distinct (map key (upsertAll calls vocabList))"
      using upsertAll_unique[OF u, of calls] by (simp add: uniqueWords_def)
    ultimately show ?thesis by (rule distinct_map_one[rotated])
  qed
  show ?thesis
    using u one
    by (simp add: saveVocabEntry_unique deleteVocabEntry_unique updateVocabEntry_unique upsertAll_unique)
qed

section \<open>The claims about \<open>saveVocabEntry\<close>\<close>

text \<open>
  Claim C2. If some entry matches the word case-insensitively, the first such entry is
  replaced by the new word, translation, context and source URL with its \<open>addedAt\<close>
  kept, and \<open>updated\<close> is true; if none matches, a new entry with \<open>addedAt\<close> set to
  the current time is appended and \<open>updated\<close> is false.
\<close>

theorem saveVocabEntry_upsert:
  "((\<exists>e \<in> set vocabList. toLowerCase (word e) = toLowerCase (inWord entry)) \<longrightarrow>
      (\<exists>i < length vocabList.
         toLowerCase (word (vocabList ! i)) = toLowerCase (inWord entry) \<and>
         (\<forall>j < i. toLowerCase (word (vocabList ! j)) \<noteq> toLowerCase (inWord entry)) \<and>
         saveVocabEntry entry now vocabList =
           (vocabList[i := \<lparr> word = inWord entry, translation = inTranslation entry,
                              ctx = orEmpty (inContext entry),
                              sourceUrl = orEmpty (inSourceUrl entry),
                              addedAt = addedAt (vocabList ! i) \<rparr>], True))) \<and>
   ((\<forall>e \<in> set vocabList. toLowerCase (word e) \<noteq> toLowerCase (inWord entry)) \<longrightarrow>
      saveVocabEntry entry now vocabList =
        (vocabList @ [\<lparr> word = inWord entry, translation = inTranslation entry,
                          ctx = orEmpty (inContext entry),
                          sourceUrl = orEmpty (inSourceUrl entry),
                          addedAt = now \<rparr>], False))"
  using saveVocabEntry_cases[of vocabList entry now] by auto

theorem saveVocabEntry_upsert_witness:
  "(\<exists>e \<in> set [\<lparr> word = ''cat'', translation = ''chat'', ctx = ''a cat sat'',
                   sourceUrl = ''u1'', addedAt = ''2026-01-01'' \<rparr>].
       toLowerCase (word e) = toLowerCase ''CAT'') \<and>
   saveVocabEntry \<lparr> inWord = ''CAT'', inTranslation = ''gato'', inContext = Some ''the CAT'',
                     inSourceUrl = None \<rparr> ''2026-02-02''
     [\<lparr> word = ''cat'', translation = ''chat'', ctx = ''a cat sat'',
        sourceUrl = ''u1'', addedAt = ''2026-01-01'' \<rparr>] =
     ([\<lparr> word = ''CAT'', translation = ''gato'', ctx = ''the CAT'',
         sourceUrl = [], addedAt = ''2026-01-01'' \<rparr>], True) \<and>
   toLowerCase (word \<lparr> word = ''cat'', translation = ''chat'', ctx = ''a cat sat'',
                   sourceUrl = ''u1'', addedAt = ''2026-01-01'' \<rparr>) \<noteq> toLowerCase ''dog'' \<and>
   saveVocabEntry \<lparr> inWord = ''dog'', inTranslation = ''chien'', inContext = Some ''a dog'',
                     inSourceUrl = Some ''u2'' \<rparr> ''2026-02-02''
     [\<lparr> word = ''cat'', translation = ''chat'', ctx = ''a cat sat'',
        sourceUrl = ''u1'', addedAt = ''2026-01-01'' \<rparr>] =
     ([\<lparr> word = ''cat'', translation = ''chat'', ctx = ''a cat sat'',
         sourceUrl = ''u1'', addedAt = ''2026-01-01'' \<rparr>,
       \<lparr> word = ''dog'', translation = ''chien'', ctx = ''a dog'',
         sourceUrl = ''u2'', addedAt = ''2026-02-02'' \<rparr>], False)"
  using saveVocabEntry_upsert[of
      "[\<lparr> word = ''cat'', translation = ''chat'', ctx = ''a cat sat'',
          sourceUrl = ''u1'', addedAt = ''2026-01-01'' \<rparr>]"
      "\<lparr> inWord = ''CAT'', inTranslation = ''gato'', inContext = Some ''the CAT'',
         inSourceUrl = None \<rparr>" "''2026-02-02''"]
    saveVocabEntry_upsert[of
      "[\<lparr> word = ''cat'', translation = ''chat'', ctx = ''a cat sat'',
          sourceUrl = ''u1'', addedAt = ''2026-01-01'' \<rparr>]"
      "\<lparr> inWord = ''dog'', inTranslation = ''chien'', inContext = Some ''a dog'',
         inSourceUrl = Some ''u2'' \<rparr>" "''2026-02-02''"]
  by (simp add: lower_eval orEmpty_def)

theorem store_unique_invariant_witness:
  "uniqueWords [] \<and>
   upsertAll
     [(\<lparr> inWord = ''Cat'', inTranslation = ''chat'', inContext = None, inSourceUrl = None \<rparr>, ''t1''),
      (\<lparr> inWord = ''dog'', inTranslation = ''chien'', inContext = None, inSourceUrl = None \<rparr>, ''t2''),
      (\<lparr> inWord = ''CAT'', inTranslation = ''gato'', inContext = None, inSourceUrl = None \<rparr>, ''t3'')]
     [] =
     [\<lparr> word = ''CAT'', translation = ''gato'', ctx = [], sourceUrl = [], addedAt = ''t1'' \<rparr>,
      \<lparr> word = ''dog'', translation = ''chien'', ctx = [], sourceUrl = [], addedAt = ''t2'' \<rparr>] \<and>
   uniqueWords (upsertAll
     [(\<lparr> inWord = ''Cat'', inTranslation = ''chat'', inContext = None, inSourceUrl = None \<rparr>, ''t1''),
      (\<lparr> inWord = ''dog'', inTranslation = ''chien'', inContext = None, inSourceUrl = None \<rparr>, ''t2''),
      (\<lparr> inWord = ''CAT'', inTranslation = ''gato'', inContext = None, inSourceUrl = None \<rparr>, ''t3'')]
     [])"
  using store_unique_invariant[of "[]" _ _ _ _
     "[(\<lparr> inWord = ''Cat'', inTranslation = ''chat'', inContext = None, inSourceUrl = None \<rparr>, ''t1''),
      (\<lparr> inWord = ''dog'', inTranslation = ''chien'', inContext = None, inSourceUrl = None \<rparr>, ''t2''),
      (\<lparr> inWord = ''CAT'', inTranslation = ''gato'', inContext = None, inSourceUrl = None \<rparr>, ''t3'')]"]
  by (simp add: uniqueWords_def saveVocabEntry_def lower_eval orEmpty_def)

text \<open>
  Claim C4, as stated, fails: a second \<open>saveVocabEntry\<close> of the same word replaces the
  context captured at the first addition.
\<close>

theorem context_immutable_counterexample:
  "ctx ([\<lparr> word = ''cat'', translation = ''chat'', ctx = ''first paragraph'',
            sourceUrl = ''u1'', addedAt = ''2026-01-01'' \<rparr>] ! 0) = ''first paragraph'' \<and>
   ctx (fst (saveVocabEntry
          \<lparr> inWord = ''cat'', inTranslation = ''chat'', inContext = Some ''second paragraph'',
             inSourceUrl = Some ''u2'' \<rparr> ''2026-02-02''
          [\<lparr> word = ''cat'', translation = ''chat'', ctx = ''first paragraph'',
              sourceUrl = ''u1'', addedAt = ''2026-01-01'' \<rparr>]) ! 0) = ''second paragraph''"
  by (simp add: saveVocabEntry_def lower_eval orEmpty_def)

text \<open>
  Claim C4, amended. \<open>updateVocabEntry\<close> changes no context; \<open>deleteVocabEntry\<close> only
  filters the list; \<open>saveVocabEntry\<close> leaves every entry with another lower-cased word as
  it is, and gives the first entry with the same lower-cased word the context of the new
  call (the empty string when the call has none).
\<close>

theorem context_frame:
  "map ctx (snd (updateVocabEntry w tr vocabList)) = map ctx vocabList \<and>
   (\<exists>P. deleteVocabEntry w vocabList = filter P vocabList) \<and>
   (\<forall>j < length vocabList.
      toLowerCase (word (vocabList ! j)) \<noteq> toLowerCase (inWord entry) \<longrightarrow>
      fst (saveVocabEntry entry now vocabList) ! j = vocabList ! j) \<and>
   (\<forall>i < length vocabList.
      toLowerCase (word (vocabList ! i)) = toLowerCase (inWord entry) \<and>
      (\<forall>j < i. toLowerCase (word (vocabList ! j)) \<noteq> toLowerCase (inWord entry)) \<longrightarrow>
      ctx (fst (saveVocabEntry entry now vocabList) ! i) = orEmpty (inContext entry))"
proof (intro conjI allI impI)
  show "map ctx (snd (updateVocabEntry w tr vocabList)) = map ctx vocabList"
    using updateVocabEntry_words by simp
  show "\<exists>P. deleteVocabEntry w vocabList = filter P vocabList"
    unfolding deleteVocabEntry_def Let_def by blast
next
  fix j
  assume j: "j < length vocabList"
    and n: "toLowerCase (word (vocabList ! j)) \<noteq> toLowerCase (inWord entry)"
  from saveVocabEntry_cases[of vocabList entry now]
  show "fst (saveVocabEntry entry now vocabList) ! j = vocabList ! j"
  proof (elim disjE exE conjE)
    fix i
    assume "key (vocabList ! i) = toLowerCase (inWord entry)"
      and eq: "saveVocabEntry entry now vocabList =
         (vocabList[i := \<lparr> word = inWord entry, translation = inTranslation entry,
                            ctx = orEmpty (inContext entry), sourceUrl = orEmpty (inSourceUrl entry),
                            addedAt = addedAt (vocabList ! i) \<rparr>], True)"
    with n have "i \<noteq> j" by auto
    then show ?thesis by (simp add: eq)
  next
    assume "saveVocabEntry entry now vocabList =
         (vocabList @ [\<lparr> word = inWord entry, translation = inTranslation entry,
                           ctx = orEmpty (inContext entry), sourceUrl = orEmpty (inSourceUrl entry),
                           addedAt = now \<rparr>], False)"
    then show ?thesis using j by (simp add: nth_append)
  qed
next
  fix i
  assume i: "i < length vocabList"
    and f: "toLowerCase (word (vocabList ! i)) = toLowerCase (inWord entry) \<and>
      (\<forall>j < i. toLowerCase (word (vocabList ! j)) \<noteq> toLowerCase (inWord entry))"
  then have "findIndex (\<lambda>e. key e = toLowerCase (inWord entry)) vocabList = int i"
    by (intro findIndex_first) auto
  then show "ctx (fst (saveVocabEntry entry now vocabList) ! i) = orEmpty (inContext entry)"
    using i by (simp add: saveVocabEntry_def Let_def)
qed

theorem context_frame_witness:
  "(0::nat) < length [\<lparr> word = ''cat'', translation = ''chat'', ctx = ''first paragraph'',
            sourceUrl = ''u1'', addedAt = ''2026-01-01'' \<rparr>] \<and>
   toLowerCase ''cat'' \<noteq> toLowerCase ''dog'' \<and>
   fst (saveVocabEntry \<lparr> inWord = ''dog'', inTranslation = ''chien'', inContext = Some ''a dog'',
                          inSourceUrl = None \<rparr> ''2026-02-02''
          [\<lparr> word = ''cat'', translation = ''chat'', ctx = ''first paragraph'',
              sourceUrl = ''u1'', addedAt = ''2026-01-01'' \<rparr>]) ! 0 =
     \<lparr> word = ''cat'', translation = ''chat'', ctx = ''first paragraph'',
        sourceUrl = ''u1'', addedAt = ''2026-01-01'' \<rparr> \<and>
   toLowerCase ''cat'' = toLowerCase ''Cat'' \<and>
   ctx (fst (saveVocabEntry \<lparr> inWord = ''Cat'', inTranslation = ''chat'', inContext = None,
                               inSourceUrl = None \<rparr> ''2026-02-02''
          [\<lparr> word = ''cat'', translation = ''chat'', ctx = ''first paragraph'',
              sourceUrl = ''u1'', addedAt = ''2026-01-01'' \<rparr>]) ! 0) = []"
  using context_frame[of _ _
      "[\<lparr> word = ''cat'', translation = ''chat'', ctx = ''first paragraph'',
          sourceUrl = ''u1'', addedAt = ''2026-01-01'' \<rparr>]"
      "\<lparr> inWord = ''dog'', inTranslation = ''chien'', inContext = Some ''a dog'',
         inSourceUrl = None \<rparr>" "''2026-02-02''"]
    context_frame[of _ _
      "[\<lparr> word = ''cat'', translation = ''chat'', ctx = ''first paragraph'',
          sourceUrl = ''u1'', addedAt = ''2026-01-01'' \<rparr>]"
      "\<lparr> inWord = ''Cat'', inTranslation = ''chat'', inContext = None,
         inSourceUrl = None \<rparr>" "''2026-02-02''"]
  by (simp add: lower_eval orEmpty_def)

text \<open>
  Claim C10. When \<open>saveVocabEntry\<close> finds an entry with the same lower-cased word, the
  stored \<open>word\<close> becomes the surface form of the new call, while \<open>addedAt\<close> stays.
\<close>

theorem saveVocabEntry_replaces_word:
  "i < length vocabList \<Longrightarrow>
   toLowerCase (word (vocabList ! i)) = toLowerCase (inWord entry) \<Longrightarrow>
   (\<forall>j < i. toLowerCase (word (vocabList ! j)) \<noteq> toLowerCase (inWord entry)) \<Longrightarrow>
     snd (saveVocabEntry entry now vocabList) \<and>
     length (fst (saveVocabEntry entry now vocabList)) = length vocabList \<and>
     word (fst (saveVocabEntry entry now vocabList) ! i) = inWord entry \<and>
     addedAt (fst (saveVocabEntry entry now vocabList) ! i) = addedAt (vocabList ! i)"
proof -
  assume i: "i < length vocabList"
    and "toLowerCase (word (vocabList ! i)) = toLowerCase (inWord entry)"
    and "\<forall>j < i. toLowerCase (word (vocabList ! j)) \<noteq> toLowerCase (inWord entry)"
  then have "findIndex (\<lambda>e. key e = toLowerCase (inWord entry)) vocabList = int i"
    by (intro findIndex_first) auto
  then show ?thesis using i by (simp add: saveVocabEntry_def Let_def)
qed

theorem saveVocabEntry_replaces_word_witness:
  "(0::nat) < length [\<lparr> word = ''ephemeral'', translation = ''t'', ctx = ''c'',
                        sourceUrl = ''u'', addedAt = ''2026-01-01'' \<rparr>] \<and>
   toLowerCase ''ephemeral'' = toLowerCase ''Ephemeral'' \<and>
   ''ephemeral'' \<noteq> ''Ephemeral'' \<and>
   word (fst (saveVocabEntry \<lparr> inWord = ''Ephemeral'', inTranslation = ''t2'',
                                inContext = Some ''c2'', inSourceUrl = Some ''u2'' \<rparr> ''2026-02-02''
          [\<lparr> word = ''ephemeral'', translation = ''t'', ctx = ''c'',
              sourceUrl = ''u'', addedAt = ''2026-01-01'' \<rparr>]) ! 0) = ''Ephemeral'' \<and>
   addedAt (fst (saveVocabEntry \<lparr> inWord = ''Ephemeral'', inTranslation = ''t2'',
                                inContext = Some ''c2'', inSourceUrl = Some ''u2'' \<rparr> ''2026-02-02''
          [\<lparr> word = ''ephemeral'', translation = ''t'', ctx = ''c'',
              sourceUrl = ''u'', addedAt = ''2026-01-01'' \<rparr>]) ! 0) = ''2026-01-01''"
  using saveVocabEntry_replaces_word[of 0
      "[\<lparr> word = ''ephemeral'', translation = ''t'', ctx = ''c'',
          sourceUrl = ''u'', addedAt = ''2026-01-01'' \<rparr>]"
      "\<lparr> inWord = ''Ephemeral'', inTranslation = ''t2'',
         inContext = Some ''c2'', inSourceUrl = Some ''u2'' \<rparr>" "''2026-02-02''"]
  by (simp add: lower_eval)

section \<open>The context window: claim C5\<close>




















section \<open>The pattern\<close>

lemma parseAlternatives_escape:
  "parseAlternatives (escapeRegExp w @ rest) cur acc = parseAlternatives rest (cur @ w) acc"
proof (induction w arbitrary: cur)
  case Nil
  show ?case by (simp add: escapeRegExp_def)
next
  case (Cons c w)
  have e: "escapeRegExp (c # w) = (if isSyntaxChar c then [backslash, c] else [c]) @ escapeRegExp w"
    by (simp add: escapeRegExp_def)
  show ?case
  proof (cases "isSyntaxChar c")
    case True
    have "backslash \<noteq> CHR '')''" "backslash \<noteq> CHR ''|''" by (simp_all add: backslash_def)
    with True Cons[of "cur @ [c]"] show ?thesis by (simp add: e)
  next
    case False
    then have "c \<noteq> CHR '')''" "c \<noteq> CHR ''|''" "c \<noteq> backslash"
      by (auto simp: isSyntaxChar_def)
    with False Cons[of "cur @ [c]"] show ?thesis by (simp add: e)
  qed
qed

lemma parseAlternatives_join:
  "ws \<noteq> [] \<Longrightarrow>
     parseAlternatives (join ''|'' (map escapeRegExp ws) @ CHR '')'' # rest) [] acc =
       Some (acc @ ws, rest)"
proof (induction ws arbitrary: acc)
  case Nil
  then show ?case by simp
next
  case (Cons w ws)
  show ?case
  proof (cases ws)
    case Nil
    then show ?thesis using parseAlternatives_escape[of w "CHR '')'' # rest" "[]" acc] by simp
  next
    case (Cons v vs)
    have "parseAlternatives (join ''|'' (map escapeRegExp (w # ws)) @ CHR '')'' # rest) [] acc =
          parseAlternatives (escapeRegExp w @
             CHR ''|'' # (join ''|'' (map escapeRegExp ws) @ CHR '')'' # rest)) [] acc"
      using Cons by simp
    also have "\<dots> = parseAlternatives (CHR ''|'' # (join ''|'' (map escapeRegExp ws) @ CHR '')'' # rest)) w acc"
      using parseAlternatives_escape[of w _ "[]" acc] by simp
    also have "\<dots> = parseAlternatives (join ''|'' (map escapeRegExp ws) @ CHR '')'' # rest) [] (acc @ [w])"
      by simp
    also have "\<dots> = Some ((acc @ [w]) @ ws, rest)"
      using Cons.IH[of "acc @ [w]"] Cons by simp
    finally show ?thesis by simp
  qed
qed

lemma parsePattern_escaped:
  "ws \<noteq> [] \<Longrightarrow> parsePattern (patternSource (map escapeRegExp ws)) = Some ws"
  using parseAlternatives_join[of ws "[backslash] @ ''b''" "[]"]
  by (simp add: parsePattern_def patternSource_def)

lemma firstAlternative_Some:
  "firstAlternative alts str i = Some len \<Longrightarrow>
     \<exists>a \<in> set alts. length a = len \<and> literalMatch a str i \<and> isWordBoundary str (i + len)"
  by (induction alts) (auto split: if_splits)

lemma firstAlternative_None:
  "firstAlternative alts str i = None \<longleftrightarrow>
     (\<forall>a \<in> set alts. \<not> (literalMatch a str i \<and> isWordBoundary str (i + length a)))"
  by (induction alts) auto

lemma matchAt_iff:
  "matchAt alts str i \<noteq> None \<longleftrightarrow>
     isWordBoundary str i \<and>
     (\<exists>a \<in> set alts. literalMatch a str i \<and> isWordBoundary str (i + length a))"
  using firstAlternative_None[of alts str i] by (auto simp: matchAt_def)

lemma matchAt_Some:
  "matchAt alts str i = Some len \<Longrightarrow>
     isWordBoundary str i \<and> isWordBoundary str (i + len) \<and> i + len \<le> length str \<and>
     (\<exists>a \<in> set alts. length a = len \<and>
        map canonicalize (take len (drop i str)) = map canonicalize (units a))"
  using firstAlternative_Some[of alts str i len]
  by (auto simp: matchAt_def literalMatch_def split: if_splits)

lemma regexExec_out: "i > length str \<Longrightarrow> regexExec alts str i = None"
  by (subst regexExec.simps) simp

lemma regexExec_hit:
  "i \<le> length str \<Longrightarrow> matchAt alts str i = Some l \<Longrightarrow> regexExec alts str i = Some (i, l)"
  by (subst regexExec.simps) simp

lemma regexExec_miss:
  "i \<le> length str \<Longrightarrow> matchAt alts str i = None \<Longrightarrow>
     regexExec alts str i = regexExec alts str (i + 1)"
  by (subst regexExec.simps) simp

lemma regexExec_Some:
  "regexExec alts str i = Some (k, len) \<Longrightarrow>
     i \<le> k \<and> k \<le> length str \<and> matchAt alts str k = Some len \<and>
     (\<forall>j. i \<le> j \<and> j < k \<longrightarrow> matchAt alts str j = None)"
proof (induction alts str i rule: regexExec.induct)
  case (1 alts str i)
  have le: "i \<le> length str"
  proof (rule ccontr)
    assume "\<not> i \<le> length str"
    then have "regexExec alts str i = None" by (simp add: regexExec_out)
    with 1(2) show False by simp
  qed
  then have le': "\<not> length str < i" by simp
  show ?case
  proof (cases "matchAt alts str i")
    case None
    with 1(2) le have r: "regexExec alts str (i + 1) = Some (k, len)"
      by (simp add: regexExec_miss)
    from 1(1)[OF le' None r]
    have a: "i + 1 \<le> k" "k \<le> length str" "matchAt alts str k = Some len"
      and b: "\<forall>j. i + 1 \<le> j \<and> j < k \<longrightarrow> matchAt alts str j = None"
      by auto
    have "matchAt alts str j = None" if "i \<le> j" "j < k" for j
    proof (cases "j = i")
      case True
      with None show ?thesis by simp
    next
      case False
      with that have "i + 1 \<le> j" by simp
      with b that show ?thesis by blast
    qed
    with a show ?thesis by simp
  next
    case (Some l)
    with 1(2) le have "k = i" "len = l"
      by (simp_all add: regexExec_hit)
    with Some le show ?thesis by auto
  qed
qed


section \<open>Removing and wrapping marks\<close>

subsection \<open>Merging text nodes\<close>

lemma textContent_mergeText:
  "concat (map textContent (mergeText x r)) = textContent x @ concat (map textContent r)"
  by (induction x r rule: mergeText.induct) auto

lemma textContent_mergeTexts:
  "concat (map textContent (mergeTexts cs)) = concat (map textContent cs)"
  by (induction cs) (simp_all add: mergeTexts_def textContent_mergeText)

lemma textContent_normalizeNode: "textContent (normalizeNode n) = textContent n"
proof (induction n)
  case (Text t)
  show ?case by simp
next
  case (Element a cs)
  have "map textContent (map normalizeNode cs) = map textContent cs"
    using Element by simp
  then show ?case by (simp add: textContent_mergeTexts del: map_map)
qed

lemma mergeTexts_Cons: "mergeTexts (x # xs) = mergeText x (mergeTexts xs)"
  by (simp add: mergeTexts_def)

lemma mergeTexts_Nil: "mergeTexts [] = []"
  by (simp add: mergeTexts_def)

lemma mergeTexts_append: "mergeTexts (xs @ ys) = foldr mergeText xs (mergeTexts ys)"
  by (simp add: mergeTexts_def)

lemma mergeText_split: "mergeText (Text (s @ t)) r = mergeText (Text s) (mergeText (Text t) r)"
  by (induction "Text t" r rule: mergeText.induct) auto

lemma mergeText_empty: "mergeText (Text []) r = r"
  by (induction "Text []" r rule: mergeText.induct) auto

lemma noAdjacentTexts_Some:
  "noAdjacentTexts (Some t # X) =
     (t \<noteq> [] \<and> (case X of Some u # Y \<Rightarrow> False | _ \<Rightarrow> True) \<and> noAdjacentTexts X)"
proof (cases X)
  case Nil
  then show ?thesis by simp
next
  case (Cons x Y)
  then show ?thesis by (cases x) auto
qed

lemma isNormalizedList_mergeText:
  "isNormalizedList r \<Longrightarrow> isNormalizedList (mergeText x r)"
  by (induction x r rule: mergeText.induct)
     (auto simp: isNormalizedList_def noAdjacentTexts_Some split: list.splits option.splits)

lemma isNormalizedList_mergeTexts: "isNormalizedList (mergeTexts cs)"
  by (induction cs) (simp_all add: mergeTexts_Cons mergeTexts_Nil isNormalizedList_mergeText,
      simp add: isNormalizedList_def)

lemma mergeText_normalized: "isNormalizedList (x # r) \<Longrightarrow> mergeText x r = x # r"
  by (induction x r rule: mergeText.induct)
     (auto simp: isNormalizedList_def noAdjacentTexts_Some split: list.splits option.splits)

lemma isNormalizedList_tl: "isNormalizedList (x # r) \<Longrightarrow> isNormalizedList r"
  by (induction x r rule: mergeText.induct)
     (auto simp: isNormalizedList_def noAdjacentTexts_Some split: list.splits option.splits)

lemma mergeTexts_normalized: "isNormalizedList cs \<Longrightarrow> mergeTexts cs = cs"
proof (induction cs)
  case Nil
  show ?case by (simp add: mergeTexts_Nil)
next
  case (Cons x cs)
  from Cons.prems have "isNormalizedList cs" by (rule isNormalizedList_tl)
  with Cons show ?case by (simp add: mergeTexts_Cons mergeText_normalized)
qed

lemma foldr_mergeText_mergeTexts:
  "foldr mergeText (mergeTexts xs) r = foldr mergeText xs r"
proof (induction xs)
  case Nil
  show ?case by (simp add: mergeTexts_Nil)
next
  case (Cons x xs)
  show ?case
  proof (cases x)
    case (Element a cs)
    with Cons show ?thesis by (simp add: mergeTexts_Cons)
  next
    case (Text s)
    show ?thesis
    proof (cases "mergeTexts xs")
      case Nil
      with Cons Text show ?thesis by (simp add: mergeTexts_Cons mergeText_empty)
    next
      case (Cons y ys)
      note c = this
      show ?thesis
      proof (cases y)
        case (Text t)
        have "foldr mergeText (mergeTexts (x # xs)) r = mergeText (Text (s @ t)) (foldr mergeText ys r)"
          using c Text \<open>x = Text s\<close> by (simp add: mergeTexts_Cons)
        also have "\<dots> = mergeText (Text s) (foldr mergeText (mergeTexts xs) r)"
          using c Text by (simp add: mergeText_split)
        finally show ?thesis using Cons.IH \<open>x = Text s\<close> by simp
      next
        case (Element a cs)
        with c Cons.IH \<open>x = Text s\<close> show ?thesis
          by (simp add: mergeTexts_Cons mergeText_empty)
      qed
    qed
  qed
qed

lemma mergeTexts_map_mergeTexts:
  assumes f: "\<And>t. f (Text t) = Text t"
  shows "mergeTexts (map f (mergeTexts ys)) = mergeTexts (map f ys)"
proof (induction ys)
  case Nil
  show ?case by (simp add: mergeTexts_Nil)
next
  case (Cons y ys)
  show ?case
  proof (cases y)
    case (Element a cs)
    with Cons show ?thesis by (simp add: mergeTexts_Cons)
  next
    case (Text s)
    show ?thesis
    proof (cases "mergeTexts ys")
      case Nil
      with Cons Text show ?thesis by (simp add: mergeTexts_Cons mergeTexts_Nil f mergeText_empty)
    next
      case (Cons z zs)
      note c = this
      show ?thesis
      proof (cases z)
        case (Text t)
        have "mergeTexts (map f (mergeTexts (y # ys))) = mergeText (Text (s @ t)) (mergeTexts (map f zs))"
          using c Text \<open>y = Text s\<close> by (simp add: mergeTexts_Cons f)
        also have "\<dots> = mergeText (Text s) (mergeTexts (map f (mergeTexts ys)))"
          using c Text by (simp add: mergeText_split mergeTexts_Cons f)
        finally show ?thesis using Cons.IH \<open>y = Text s\<close> by (simp add: mergeTexts_Cons f)
      next
        case (Element a cs)
        with c Cons.IH \<open>y = Text s\<close> show ?thesis
          by (simp add: mergeTexts_Cons mergeText_empty f)
      qed
    qed
  qed
qed

lemma mergeTexts_texts:
  "mergeTexts (map Text ss) = (if concat ss = [] then [] else [Text (concat ss)])"
proof (induction ss)
  case Nil
  show ?case by (simp add: mergeTexts_Nil)
next
  case (Cons s ss)
  then show ?case by (auto simp: mergeTexts_Cons)
qed

lemma in_mergeText: "x \<in> set (mergeText y r) \<Longrightarrow> (\<exists>t. x = Text t) \<or> x = y \<or> x \<in> set r"
  by (induction y r rule: mergeText.induct) (auto split: if_splits)

lemma in_mergeTexts: "x \<in> set (mergeTexts xs) \<Longrightarrow> (\<exists>t. x = Text t) \<or> x \<in> set xs"
proof (induction xs)
  case Nil
  then show ?case by (simp add: mergeTexts_Nil)
next
  case (Cons y ys)
  from Cons.prems in_mergeText[of x y "mergeTexts ys"] Cons.IH show ?case
    by (auto simp: mergeTexts_Cons)
qed

subsection \<open>The fragment of one text node\<close>

lemma take_take_drop:
  "i \<le> k \<Longrightarrow> k + len \<le> length (str :: 'a list) \<Longrightarrow>
     take (k - i) (drop i str) @ take len (drop k str) @ drop (k + len) str = drop i str"
proof -
  assume a: "i \<le> k" "k + len \<le> length str"
  have "take len (drop k str) @ drop (k + len) str = drop k str"
    by (metis add.commute append_take_drop_id drop_drop)
  moreover have "take (k - i) (drop i str) @ drop k str = drop i str"
    using a by (metis add.commute append_take_drop_id drop_drop le_add_diff_inverse)
  ultimately show ?thesis by simp
qed

lemma wrapMatches_result:
  assumes "wrapMatches alts vmap str i frag k = Some y"
  shows "i \<le> length str \<longrightarrow>
       (\<exists>new. fst y = frag @ new \<and> (\<forall>x \<in> set new. fragmentNode x) \<and>
              concat (map textContent new) = drop i str)"
proof (induction alts vmap str i frag k y rule: wrapMatches.raw_induct)
  case (1 w alts vmap str i frag k y)
  show ?case
  proof
    assume le: "i \<le> length str"
    show "\<exists>new. fst y = frag @ new \<and> (\<forall>x \<in> set new. fragmentNode x) \<and>
              concat (map textContent new) = drop i str"
    proof (cases "regexExec alts str i")
      case None
      with 1(2) have y: "fst y = frag @ (if i < length str then [Text (drop i str)] else [])"
        by auto
      show ?thesis
        by (rule exI[of _ "if i < length str then [Text (drop i str)] else []"])
           (use y le in \<open>auto simp: fragmentNode_def\<close>)
    next
      case (Some p)
      obtain idx len where p: "p = (idx, len)" by (cases p)
      from regexExec_Some[OF Some[unfolded p]] have ik: "i \<le> idx"
        and m: "matchAt alts str idx = Some len" by auto
      from matchAt_Some[OF m] have b: "idx + len \<le> length str" by simp
      let ?pre = "(if idx > i then [Text (take (idx - i) (drop i str))] else []) @
             [markNode (take len (drop idx str)) (vmap (toLowerCaseUnits (take len (drop idx str))))]"
      from 1(2) Some p have "w alts vmap str (idx + len) (frag @ ?pre) (k + 1) = Some y"
        by simp
      from 1(1)[OF this] b obtain new where n: "fst y = (frag @ ?pre) @ new"
        "\<forall>x \<in> set new. fragmentNode x" "concat (map textContent new) = drop (idx + len) str"
        by blast
      have t: "concat (map textContent (?pre @ new)) =
          take (idx - i) (drop i str) @ take len (drop idx str) @ drop (idx + len) str"
        using n(3) ik by (auto simp: markNode_def)
      show ?thesis
        by (rule exI[of _ "?pre @ new"])
           (use n t take_take_drop[OF ik b] in \<open>auto simp: fragmentNode_def\<close>)
    qed
  qed
qed fact

lemma wrapMatches_has_mark:
  assumes e: "regexExec alts str 0 \<noteq> None" and w: "wrapMatches alts vmap str 0 [] 0 = Some (ns, k)"
  shows "(\<exists>x \<in> set ns. isMark x) \<and> (\<forall>x \<in> set ns. fragmentNode x) \<and>
         concat (map textContent ns) = str"
proof -
  from e obtain idx len where s: "regexExec alts str 0 = Some (idx, len)" by auto
  from regexExec_Some[OF s] have m: "matchAt alts str idx = Some len" by auto
  from matchAt_Some[OF m] have b: "idx + len \<le> length str" by simp
  let ?pre = "(if idx > 0 then [Text (take (idx - 0) (drop 0 str))] else []) @
             [markNode (take len (drop idx str)) (vmap (toLowerCaseUnits (take len (drop idx str))))]"
  from w s have "wrapMatches alts vmap str (idx + len) ([] @ ?pre) (0 + 1) = Some (ns, k)"
    by (subst (asm) wrapMatches.simps) simp
  from wrapMatches_result[OF this] b obtain new where n: "ns = ([] @ ?pre) @ new" by auto
  have "isMark (markNode (take len (drop idx str)) (vmap (toLowerCaseUnits (take len (drop idx str)))))"
    by (simp add: markNode_def)
  with n have 1: "\<exists>x \<in> set ns. isMark x" by auto
  from wrapMatches_result[OF w] have "(\<forall>x \<in> set ns. fragmentNode x) \<and>
         concat (map textContent ns) = str" by auto
  with 1 show ?thesis by simp
qed

lemma firstAlternative_pos:
  "\<forall>a \<in> set alts. a \<noteq> [] \<Longrightarrow> firstAlternative alts str i = Some len \<Longrightarrow> 0 < len"
  using firstAlternative_Some[of alts str i len] by auto

lemma wrapMatches_returns:
  assumes ne: "\<forall>a \<in> set alts. a \<noteq> []"
  shows "\<exists>y. wrapMatches alts vmap str i frag k = Some y"
proof (induction "Suc (length str) - i" arbitrary: i frag k rule: less_induct)
  case less
  show ?case
  proof (cases "regexExec alts str i")
    case None
    then show ?thesis by (subst wrapMatches.simps) simp
  next
    case (Some p)
    obtain idx len where p: "p = (idx, len)" by (cases p)
    from regexExec_Some[OF Some[unfolded p]] have ik: "i \<le> idx"
      and m: "matchAt alts str idx = Some len" by auto
    from matchAt_Some[OF m] have b: "idx + len \<le> length str" by simp
    from m have "firstAlternative alts str idx = Some len"
      by (simp add: matchAt_def split: if_splits)
    from firstAlternative_pos[OF ne this] have "0 < len" .
    with ik b have "Suc (length str) - (idx + len) < Suc (length str) - i" by linarith
    from less[OF this] obtain y where
      "wrapMatches alts vmap str (idx + len)
         (frag @ (if idx > i then [Text (take (idx - i) (drop i str))] else []) @
             [markNode (take len (drop idx str)) (vmap (toLowerCaseUnits (take len (drop idx str))))])
         (k + 1) = Some y"
      by blast
    with Some p show ?thesis by (subst wrapMatches.simps) simp
  qed
qed

subsection \<open>One round of the removal\<close>

lemma unwrapFirst_textContent:
  shows "unwrapFirst n = Some n' \<Longrightarrow> textContent n' = textContent n"
    and "unwrapFirstIn cs = Some (cs', d) \<Longrightarrow>
           concat (map textContent cs') = concat (map textContent cs)"
proof (induction n and cs arbitrary: n' and cs' d rule: unwrapFirst_unwrapFirstIn.induct)
  case (1 t)
  then show ?case by simp
next
  case (2 a cs)
  then obtain cs' d where u: "unwrapFirstIn cs = Some (cs', d)"
    by (auto split: option.splits)
  from 2(1)[OF u] 2(2) u show ?case
    by (auto simp: textContent_mergeTexts textContent_normalizeNode
        simp del: normalizeNode.simps split: if_splits)
next
  case 3
  then show ?case by simp
next
  case (4 c cs)
  show ?case
  proof (cases "isMark c")
    case True
    with 4(3) show ?thesis by auto
  next
    case False
    show ?thesis
    proof (cases "unwrapFirst c")
      case (Some c')
      with False 4(1)[of c'] 4(3) show ?thesis by auto
    next
      case None
      with False 4(3) obtain cs1 d1 where u: "unwrapFirstIn cs = Some (cs1, d1)"
        by (auto split: option.splits)
      from 4(2)[OF False None u] False None u 4(3) show ?thesis by auto
    qed
  qed
qed

lemma unwrapFirst_None:
  shows "unwrapFirst n = None \<Longrightarrow> countMarks n = 0"
    and "unwrapFirstIn cs = None \<Longrightarrow> (\<forall>c \<in> set cs. \<not> isMark c \<and> countMarks c = 0)"
proof (induction n and cs rule: unwrapFirst_unwrapFirstIn.induct)
  case (1 t)
  show ?case by simp
next
  case (2 a cs)
  then have "unwrapFirstIn cs = None" by (auto split: option.splits)
  from 2(1)[OF this] show ?case by simp
next
  case 3
  show ?case by simp
next
  case (4 c cs)
  from 4(3) have m: "\<not> isMark c" by (auto split: if_splits)
  with 4(3) have n: "unwrapFirst c = None" by (auto split: option.splits)
  with m 4(3) have l: "unwrapFirstIn cs = None" by (auto split: option.splits)
  from 4(1)[OF m n] 4(2)[OF m n l] m show ?case by simp
qed

lemma removeHighlights_textContent: "textContent (removeHighlights d) = textContent d"
proof (induction d rule: removeHighlights.induct)
  case (1 d)
  show ?case
  proof (cases "unwrapFirst d")
    case None
    then show ?thesis by (subst removeHighlights.simps) simp
  next
    case (Some d')
    with 1[OF Some] unwrapFirst_textContent(1)[OF Some] show ?thesis
      by (subst removeHighlights.simps) simp
  qed
qed

lemma removeHighlights_countMarks: "countMarks (removeHighlights d) = 0"
proof (induction d rule: removeHighlights.induct)
  case (1 d)
  show ?case
  proof (cases "unwrapFirst d")
    case None
    with unwrapFirst_None(1)[OF None] show ?thesis by (subst removeHighlights.simps) simp
  next
    case (Some d')
    with 1[OF Some] show ?thesis by (subst removeHighlights.simps) simp
  qed
qed

subsection \<open>The removal in one pass\<close>

lemma isMark_unwrapAll: "isMark (unwrapAll n) = isMark n"
  by (cases n) simp_all

lemma textContent_unwrapAll: "textContent (unwrapAll n) = textContent n"
proof (induction n)
  case (Text t)
  show ?case by simp
next
  case (Element a cs)
  have "map textContent (map textOfMark cs) = map textContent cs"
    using Element by simp
  then show ?case by (simp add: textContent_mergeTexts del: map_map)
qed

lemma unwrapAll_normalizeNode: "unwrapAll (normalizeNode n) = unwrapAll n"
proof (induction n)
  case (Text t)
  show ?case by simp
next
  case (Element a cs)
  have "mergeTexts (map textOfMark (mergeTexts (map normalizeNode cs))) =
        mergeTexts (map textOfMark (map normalizeNode cs))"
    by (rule mergeTexts_map_mergeTexts) simp
  moreover have "map textOfMark (map normalizeNode cs) = map textOfMark cs"
    using Element by (simp add: isMark_normalize textContent_normalizeNode)
  ultimately show ?case by (simp del: map_map)
qed

lemma unwrapFirst_unwrapAll:
  shows "unwrapFirst n = Some n' \<Longrightarrow> unwrapAll n' = unwrapAll n"
    and "unwrapFirstIn cs = Some (cs', d) \<Longrightarrow>
           mergeTexts (map textOfMark cs') = mergeTexts (map textOfMark cs)"
proof (induction n and cs arbitrary: n' and cs' d rule: unwrapFirst_unwrapFirstIn.induct)
  case (1 t)
  then show ?case by simp
next
  case (2 a cs)
  then obtain cs' d where u: "unwrapFirstIn cs = Some (cs', d)"
    by (auto split: option.splits)
  have e: "unwrapAll (Element a cs') = unwrapAll (Element a cs)"
    using 2(1)[OF u] by simp
  show ?case
  proof (cases d)
    case True
    with 2(2) u have "n' = normalizeNode (Element a cs')" by simp
    with e show ?thesis by (simp only: unwrapAll_normalizeNode)
  next
    case False
    with 2(2) u have "n' = Element a cs'" by simp
    with e show ?thesis by simp
  qed
next
  case 3
  then show ?case by simp
next
  case (4 c cs)
  show ?case
  proof (cases "isMark c")
    case True
    with 4(3) show ?thesis by auto
  next
    case False
    show ?thesis
    proof (cases "unwrapFirst c")
      case (Some c')
      from unwrapFirst_countMarks(1)[OF Some] False have "\<not> isMark c'" by simp
      with Some False 4(1)[OF False Some] 4(3) show ?thesis by auto
    next
      case None
      with False 4(3) obtain cs1 d1 where u: "unwrapFirstIn cs = Some (cs1, d1)"
        by (auto split: option.splits)
      from 4(2)[OF False None u] False None u 4(3) show ?thesis
        by (auto simp: mergeTexts_Cons)
    qed
  qed
qed

lemma isNormalizedList_skeleton:
  "skeleton cs' = skeleton cs \<Longrightarrow> isNormalizedList cs' = isNormalizedList cs"
  by (simp add: isNormalizedList_def)

lemma isNormalized_normalizeNode: "isNormalized (normalizeNode n)"
proof (induction n)
  case (Text t)
  show ?case by simp
next
  case (Element a cs)
  have "isNormalized c" if "c \<in> set (mergeTexts (map normalizeNode cs))" for c
    using in_mergeTexts[OF that] Element by auto
  then show ?case by (simp add: isNormalizedList_mergeTexts)
qed

lemma isNormalized_upToMarks: "isNormalized n \<Longrightarrow> normalizedUpToMarks n"
  by (induction n) auto

lemma unwrapFirst_Element:
  assumes u: "unwrapFirst n = Some n'"
  shows "\<exists>a ds ds'. n = Element a ds \<and> n' = Element a ds'"
proof (cases n)
  case (Text t)
  with u show ?thesis by simp
next
  case (Element a ds)
  with u obtain ds' d where "unwrapFirstIn ds = Some (ds', d)"
    and n': "n' = (if d then normalizeNode (Element a ds') else Element a ds')"
    by (auto split: option.splits)
  then have "\<exists>es. n' = Element a es" by (cases d) simp_all
  with Element show ?thesis by blast
qed

lemma skeleton_Element: "skeleton (Element a ds # r) = None # skeleton r"
  by simp

lemma unwrapFirst_upToMarks:
  shows "normalizedUpToMarks n \<Longrightarrow> unwrapFirst n = Some n' \<Longrightarrow> normalizedUpToMarks n'"
    and "(\<forall>c \<in> set cs. \<not> isMark c \<longrightarrow> normalizedUpToMarks c) \<Longrightarrow>
         unwrapFirstIn cs = Some (cs', d) \<Longrightarrow>
           (\<forall>c \<in> set cs'. \<not> isMark c \<longrightarrow> normalizedUpToMarks c) \<and>
           (\<not> d \<longrightarrow> (\<exists>c \<in> set cs'. isMark c) = (\<exists>c \<in> set cs. isMark c) \<and>
                     skeleton cs' = skeleton cs)"
proof (induction n and cs arbitrary: n' and cs' d rule: unwrapFirst_unwrapFirstIn.induct)
  case (1 t)
  then show ?case by simp
next
  case (2 a cs)
  from 2(3) obtain cs' d where u: "unwrapFirstIn cs = Some (cs', d)"
    and n': "n' = (if d then normalizeNode (Element a cs') else Element a cs')"
    by (auto split: option.splits)
  from 2(2) have ch: "\<forall>c \<in> set cs. \<not> isMark c \<longrightarrow> normalizedUpToMarks c"
    and par: "(\<exists>c \<in> set cs. isMark c) \<or> isNormalizedList cs" by simp_all
  note ih = 2(1)[OF ch u]
  show ?case
  proof (cases d)
    case True
    with n' have "n' = normalizeNode (Element a cs')" by simp
    then show ?thesis
      using isNormalized_upToMarks[OF isNormalized_normalizeNode[of "Element a cs'"]]
      by (simp only:)
  next
    case False
    with n' have n'': "n' = Element a cs'" by simp
    from ih False have m: "(\<exists>c \<in> set cs'. isMark c) = (\<exists>c \<in> set cs. isMark c)"
      and sk: "skeleton cs' = skeleton cs"
      and ch': "\<forall>c \<in> set cs'. \<not> isMark c \<longrightarrow> normalizedUpToMarks c" by blast+
    from sk have "isNormalizedList cs' = isNormalizedList cs"
      by (rule isNormalizedList_skeleton)
    with m par have "(\<exists>c \<in> set cs'. isMark c) \<or> isNormalizedList cs'" by blast
    with ch' show ?thesis unfolding n'' by simp
  qed
next
  case 3
  then show ?case by simp
next
  case (4 c cs)
  from 4(3) have rest: "\<forall>x \<in> set cs. \<not> isMark x \<longrightarrow> normalizedUpToMarks x" by simp
  show ?case
  proof (cases "isMark c")
    case True
    with 4(4) have r: "cs' = Text (textContent c) # cs" "d = True" by simp_all
    from rest show ?thesis unfolding r by simp
  next
    case False
    with 4(3) have nc: "normalizedUpToMarks c" by simp
    show ?thesis
    proof (cases "unwrapFirst c")
      case (Some c')
      from unwrapFirst_countMarks(1)[OF Some] False have m': "\<not> isMark c'" by simp
      from unwrapFirst_Element[OF Some] obtain a ds ds' where
        c: "c = Element a ds" and c': "c' = Element a ds'" by blast
      from Some False 4(4) have r: "cs' = c' # cs" "d = False" by simp_all
      from 4(1)[OF False nc Some] have nc': "normalizedUpToMarks c'" .
      have 1: "\<forall>x \<in> set (c' # cs). \<not> isMark x \<longrightarrow> normalizedUpToMarks x"
        using nc' rest by simp
      have 2: "(\<exists>x \<in> set (c' # cs). isMark x) = (\<exists>x \<in> set (c # cs). isMark x)"
        using m' False by simp
      have 3: "skeleton (c' # cs) = skeleton (c # cs)"
        unfolding c c' by (simp only: skeleton_Element)
      from 1 2 3 show ?thesis unfolding r by blast
    next
      case None
      with False 4(4) obtain cs1 where u: "unwrapFirstIn cs = Some (cs1, d)" and r: "cs' = c # cs1"
        by (auto split: option.splits)
      from 4(2)[OF False None rest u]
      have a: "\<forall>x \<in> set cs1. \<not> isMark x \<longrightarrow> normalizedUpToMarks x"
        and b: "\<not> d \<longrightarrow> (\<exists>x \<in> set cs1. isMark x) = (\<exists>x \<in> set cs. isMark x) \<and>
                     skeleton cs1 = skeleton cs" by blast+
      have 1: "\<forall>x \<in> set (c # cs1). \<not> isMark x \<longrightarrow> normalizedUpToMarks x"
        using a nc by simp
      have 2: "(\<exists>x \<in> set (c # cs1). isMark x) = (\<exists>x \<in> set (c # cs). isMark x)"
        and 3: "skeleton (c # cs1) = skeleton (c # cs)" if "\<not> d"
        using b that by (cases c; simp)+
      from 1 2 3 show ?thesis unfolding r by blast
    qed
  qed
qed

lemma unwrapAll_id:
  "countMarks n = 0 \<Longrightarrow> normalizedUpToMarks n \<Longrightarrow> unwrapAll n = n"
proof (induction n)
  case (Text t)
  show ?case by simp
next
  case (Element a cs)
  from Element(2) have z: "\<forall>c \<in> set cs. \<not> isMark c \<and> countMarks c = 0"
    by (auto simp: sum_list_eq_0_iff)
  with Element(3) have "isNormalizedList cs" "\<forall>c \<in> set cs. normalizedUpToMarks c" by auto
  with Element(1) z have "map textOfMark cs = cs"
    by (simp add: map_idI)
  with \<open>isNormalizedList cs\<close> show ?case by (simp add: mergeTexts_normalized)
qed

lemma removeHighlights_unwrapAll:
  "normalizedUpToMarks d \<Longrightarrow> removeHighlights d = unwrapAll d"
proof (induction d rule: removeHighlights.induct)
  case (1 d)
  show ?case
  proof (cases "unwrapFirst d")
    case None
    from unwrapAll_id[OF unwrapFirst_None(1)[OF None] 1(2)] None show ?thesis
      by (subst removeHighlights.simps) simp
  next
    case (Some d')
    from 1(1)[OF Some unwrapFirst_upToMarks(1)[OF 1(2) Some]] unwrapFirst_unwrapAll(1)[OF Some] Some
    show ?thesis by (subst removeHighlights.simps) simp
  qed
qed

lemma countMarks_unwrapAll: "countMarks (unwrapAll n) = 0"
proof (induction n)
  case (Text t)
  show ?case by simp
next
  case (Element a cs)
  have "(if isMark c then 1 else 0) + countMarks c = (0::nat)"
    if "c \<in> set (map textOfMark cs)" for c
    using that Element by (auto simp: isMark_unwrapAll)
  then have "sum_list (map (\<lambda>c. (if isMark c then 1 else 0) + countMarks c) (map textOfMark cs)) = 0"
    by (simp only: sum_list_eq_0_iff set_map) auto
  then show ?case by (simp add: countMarks_mergeTexts del: map_map)
qed

lemma isNormalized_unwrapAll: "isNormalized (unwrapAll n)"
proof (induction n)
  case (Text t)
  show ?case by simp
next
  case (Element a cs)
  have "isNormalized c" if "c \<in> set (mergeTexts (map textOfMark cs))" for c
    using in_mergeTexts[OF that] Element by auto
  then show ?case by (simp add: isNormalizedList_mergeTexts)
qed

subsection \<open>The pass that wraps the matches\<close>

lemma fragmentNode_cases:
  assumes "fragmentNode x"
  obtains (plain) s where "x = Text s" | (marker) m e where "x = markNode m e"
  using assms unfolding fragmentNode_def by blast

lemma fragmentNode_facts:
  assumes "fragmentNode x"
  shows "textOfMark x = Text (textContent x)"
    and "\<not> isMark x \<Longrightarrow> normalizedUpToMarks x"
    and "\<not> nestedMarks x" and "countMarks x = 0"
  using assms by (cases rule: fragmentNode_cases; simp add: markNode_def)+

lemma skeleton_append: "skeleton (xs @ ys) = skeleton xs @ skeleton ys"
  by (induction xs rule: skeleton.induct) simp_all

lemma mergeTexts_fragment:
  assumes f: "\<forall>x \<in> set ns. fragmentNode x" and t: "concat (map textContent ns) = str"
  shows "mergeTexts (map textOfMark ns) = mergeTexts [Text str]"
proof -
  have "map textOfMark ns = map Text (map textContent ns)"
    using f fragmentNode_facts(1) by (simp add: map_eq_conv del: if_split)
  then have "mergeTexts (map textOfMark ns) =
      (if concat (map textContent ns) = [] then [] else [Text (concat (map textContent ns))])"
    by (simp only: mergeTexts_texts)
  then show ?thesis unfolding t by (simp add: mergeTexts_Cons mergeTexts_Nil)
qed

lemma highlight_unwrapAll:
  shows "highlightNode alts vmap env parent n = Some (ns, k) \<Longrightarrow>
           concat (map textContent ns) = textContent n \<and>
           mergeTexts (map textOfMark ns) = mergeTexts [textOfMark n]"
    and "highlightChildren alts vmap env parent cs = Some (cs', k) \<Longrightarrow>
           concat (map textContent cs') = concat (map textContent cs) \<and>
           mergeTexts (map textOfMark cs') = mergeTexts (map textOfMark cs)"
proof (induction alts vmap env parent n and alts vmap env parent cs arbitrary: ns k and cs' k
    rule: highlightNode_highlightChildren.induct)
  case (1 alts vmap env parent t)
  show ?case
  proof (cases "acceptNode env parent \<and> t \<noteq> [] \<and> regexExec alts t 0 \<noteq> None")
    case True
    with 1 have w: "wrapMatches alts vmap t 0 [] 0 = Some (ns, k)" by simp
    from True have "regexExec alts t 0 \<noteq> None" by simp
    from wrapMatches_has_mark[OF this w]
    have f: "\<forall>x \<in> set ns. fragmentNode x" and c: "concat (map textContent ns) = t" by simp_all
    from mergeTexts_fragment[OF f c] c show ?thesis by simp
  next
    case False
    with 1 have "ns = [Text t]" by auto
    then show ?thesis by simp
  qed
next
  case (2 alts vmap env parent a cs)
  from 2(2) obtain cs' where h: "highlightChildren alts vmap (enter env parent) a cs = Some (cs', k)"
    and ns: "ns = [Element a cs']"
    by (auto split: option.splits)
  from 2(1)[OF h] have t: "concat (map textContent cs') = concat (map textContent cs)"
    and u: "mergeTexts (map textOfMark cs') = mergeTexts (map textOfMark cs)" by simp_all
  have "textOfMark (Element a cs') = textOfMark (Element a cs)"
    using t u by simp
  with t show ?case unfolding ns by simp
next
  case (3 alts vmap env parent)
  then show ?case by simp
next
  case (4 alts vmap env parent c cs)
  from 4(3) obtain ns n ms m where hn: "highlightNode alts vmap env parent c = Some (ns, n)"
    and hc: "highlightChildren alts vmap env parent cs = Some (ms, m)"
    and r: "cs' = ns @ ms"
    by (auto split: option.splits)
  from 4(1)[OF hn] have t1: "concat (map textContent ns) = textContent c"
    and u1: "mergeTexts (map textOfMark ns) = mergeTexts [textOfMark c]" by simp_all
  from 4(2)[OF hn _ hc] have t2: "concat (map textContent ms) = concat (map textContent cs)"
    and u2: "mergeTexts (map textOfMark ms) = mergeTexts (map textOfMark cs)" by simp_all
  have "mergeTexts (map textOfMark (ns @ ms)) =
        foldr mergeText (map textOfMark ns) (mergeTexts (map textOfMark ms))"
    by (simp add: mergeTexts_append del: if_split)
  also have "\<dots> = foldr mergeText (mergeTexts (map textOfMark ns)) (mergeTexts (map textOfMark ms))"
    by (simp only: foldr_mergeText_mergeTexts)
  also have "\<dots> = foldr mergeText (mergeTexts [textOfMark c]) (mergeTexts (map textOfMark cs))"
    by (simp only: u1 u2)
  also have "\<dots> = foldr mergeText [textOfMark c] (mergeTexts (map textOfMark cs))"
    by (simp only: foldr_mergeText_mergeTexts)
  also have "\<dots> = mergeTexts (map textOfMark (c # cs))"
    by (simp add: mergeTexts_Cons del: if_split)
  finally show ?case using t1 t2 unfolding r by simp
qed

lemma highlight_upToMarks:
  shows "isNormalized n \<Longrightarrow> highlightNode alts vmap env parent n = Some (ns, k) \<Longrightarrow>
           (\<forall>x \<in> set ns. \<not> isMark x \<longrightarrow> normalizedUpToMarks x) \<and>
           ((\<exists>x \<in> set ns. isMark x) \<or> skeleton ns = skeleton [n])"
    and "(\<forall>c \<in> set cs. isNormalized c) \<Longrightarrow>
         highlightChildren alts vmap env parent cs = Some (cs', k) \<Longrightarrow>
           (\<forall>x \<in> set cs'. \<not> isMark x \<longrightarrow> normalizedUpToMarks x) \<and>
           ((\<exists>x \<in> set cs'. isMark x) \<or> skeleton cs' = skeleton cs)"
proof (induction alts vmap env parent n and alts vmap env parent cs arbitrary: ns k and cs' k
    rule: highlightNode_highlightChildren.induct)
  case (1 alts vmap env parent t)
  show ?case
  proof (cases "acceptNode env parent \<and> t \<noteq> [] \<and> regexExec alts t 0 \<noteq> None")
    case True
    with 1(2) have w: "wrapMatches alts vmap t 0 [] 0 = Some (ns, k)" by simp
    from True have "regexExec alts t 0 \<noteq> None" by simp
    from wrapMatches_has_mark[OF this w]
    have m: "\<exists>x \<in> set ns. isMark x" and f: "\<forall>x \<in> set ns. fragmentNode x" by simp_all
    from f fragmentNode_facts(2) have "\<forall>x \<in> set ns. \<not> isMark x \<longrightarrow> normalizedUpToMarks x"
      by blast
    with m show ?thesis by blast
  next
    case False
    with 1(2) have "ns = [Text t]" by auto
    then show ?thesis by simp
  qed
next
  case (2 alts vmap env parent a cs)
  from 2(3) obtain cs' where h: "highlightChildren alts vmap (enter env parent) a cs = Some (cs', k)"
    and ns: "ns = [Element a cs']"
    by (auto split: option.splits)
  from 2(2) have ch: "\<forall>c \<in> set cs. isNormalized c" and l: "isNormalizedList cs" by simp_all
  from 2(1)[OF ch h] have a: "\<forall>x \<in> set cs'. \<not> isMark x \<longrightarrow> normalizedUpToMarks x"
    and b: "(\<exists>x \<in> set cs'. isMark x) \<or> skeleton cs' = skeleton cs" by blast+
  from b l have "(\<exists>x \<in> set cs'. isMark x) \<or> isNormalizedList cs'"
    using isNormalizedList_skeleton[of cs' cs] by blast
  with a have "normalizedUpToMarks (Element a cs')" by simp
  then show ?case unfolding ns by simp
next
  case (3 alts vmap env parent)
  then show ?case by simp
next
  case (4 alts vmap env parent c cs)
  from 4(4) obtain ns n ms m where hn: "highlightNode alts vmap env parent c = Some (ns, n)"
    and hc: "highlightChildren alts vmap env parent cs = Some (ms, m)"
    and r: "cs' = ns @ ms"
    by (auto split: option.splits)
  from 4(3) have nc: "isNormalized c" and ncs: "\<forall>x \<in> set cs. isNormalized x" by simp_all
  from 4(1)[OF nc hn] have a1: "\<forall>x \<in> set ns. \<not> isMark x \<longrightarrow> normalizedUpToMarks x"
    and b1: "(\<exists>x \<in> set ns. isMark x) \<or> skeleton ns = skeleton [c]" by blast+
  from 4(2)[OF hn _ ncs hc] have a2: "\<forall>x \<in> set ms. \<not> isMark x \<longrightarrow> normalizedUpToMarks x"
    and b2: "(\<exists>x \<in> set ms. isMark x) \<or> skeleton ms = skeleton cs" by blast+
  have 1: "\<forall>x \<in> set (ns @ ms). \<not> isMark x \<longrightarrow> normalizedUpToMarks x"
    using a1 a2 by auto
  have 2: "(\<exists>x \<in> set (ns @ ms). isMark x) \<or> skeleton (ns @ ms) = skeleton (c # cs)"
  proof (cases "(\<exists>x \<in> set ns. isMark x) \<or> (\<exists>x \<in> set ms. isMark x)")
    case True
    then show ?thesis by auto
  next
    case False
    with b1 b2 have "skeleton ns = skeleton [c]" "skeleton ms = skeleton cs" by blast+
    then have "skeleton (ns @ ms) = skeleton ([c] @ cs)" by (simp only: skeleton_append)
    then show ?thesis by simp
  qed
  from 1 2 show ?case unfolding r by blast
qed

lemma highlight_not_nested:
  shows "\<not> isMark n \<and> countMarks n = 0 \<Longrightarrow>
         highlightNode alts vmap env parent n = Some (ns, k) \<Longrightarrow>
           (\<forall>x \<in> set ns. \<not> nestedMarks x \<and> (isMark x \<longrightarrow> countMarks x = 0))"
    and "(\<forall>c \<in> set cs. \<not> isMark c \<and> countMarks c = 0) \<Longrightarrow>
         highlightChildren alts vmap env parent cs = Some (cs', k) \<Longrightarrow>
           (\<forall>x \<in> set cs'. \<not> nestedMarks x \<and> (isMark x \<longrightarrow> countMarks x = 0))"
proof (induction alts vmap env parent n and alts vmap env parent cs arbitrary: ns k and cs' k
    rule: highlightNode_highlightChildren.induct)
  case (1 alts vmap env parent t)
  show ?case
  proof (cases "acceptNode env parent \<and> t \<noteq> [] \<and> regexExec alts t 0 \<noteq> None")
    case True
    with 1(2) have w: "wrapMatches alts vmap t 0 [] 0 = Some (ns, k)" by simp
    from True have "regexExec alts t 0 \<noteq> None" by simp
    from wrapMatches_has_mark[OF this w] have f: "\<forall>x \<in> set ns. fragmentNode x" by simp
    with fragmentNode_facts(3,4) show ?thesis by blast
  next
    case False
    with 1(2) have "ns = [Text t]" by auto
    then show ?thesis by simp
  qed
next
  case (2 alts vmap env parent a cs)
  from 2(3) obtain cs' where h: "highlightChildren alts vmap (enter env parent) a cs = Some (cs', k)"
    and ns: "ns = [Element a cs']"
    by (auto split: option.splits)
  from 2(2) have nm: "\<not> isMark (Element a cs)"
    and ch: "\<forall>c \<in> set cs. \<not> isMark c \<and> countMarks c = 0"
    by (auto simp: sum_list_eq_0_iff)
  from 2(1)[OF ch h] have a: "\<forall>x \<in> set cs'. \<not> nestedMarks x \<and> (isMark x \<longrightarrow> countMarks x = 0)" .
  then have "\<not> nestedMarks (Element a cs')" by auto
  moreover from nm have "\<not> isMark (Element a cs')" by simp
  ultimately show ?case unfolding ns by (simp del: isMark.simps nestedMarks.simps countMarks.simps)
next
  case (3 alts vmap env parent)
  then show ?case by simp
next
  case (4 alts vmap env parent c cs)
  from 4(4) obtain ns n ms m where hn: "highlightNode alts vmap env parent c = Some (ns, n)"
    and hc: "highlightChildren alts vmap env parent cs = Some (ms, m)"
    and r: "cs' = ns @ ms"
    by (auto split: option.splits)
  from 4(3) have nc: "\<not> isMark c \<and> countMarks c = 0"
    and ncs: "\<forall>x \<in> set cs. \<not> isMark x \<and> countMarks x = 0" by simp_all
  from 4(1)[OF nc hn] 4(2)[OF hn _ ncs hc] show ?case unfolding r by auto
qed

lemma highlight_returns:
  assumes ne: "\<forall>a \<in> set alts. a \<noteq> []"
  shows "\<exists>r. highlightNode alts vmap env parent n = Some r"
    and "\<exists>r. highlightChildren alts vmap env parent cs = Some r"
  using ne
proof (induction alts vmap env parent n and alts vmap env parent cs
    rule: highlightNode_highlightChildren.induct)
  case (1 alts vmap env parent t)
  from wrapMatches_returns[OF 1] show ?case by simp
next
  case (2 alts vmap env parent a cs)
  from 2(1)[OF 2(2)] show ?case by auto
next
  case (3 alts vmap env parent)
  show ?case by simp
next
  case (4 alts vmap env parent c cs)
  from 4(1)[OF 4(3)] obtain ns n where hn: "highlightNode alts vmap env parent c = Some (ns, n)"
    by auto
  from 4(2)[OF hn _ 4(3)] hn show ?case by auto
qed

subsection \<open>The scan as a whole\<close>

lemma removeHighlights_no_marks: "countMarks d = 0 \<Longrightarrow> removeHighlights d = d"
proof -
  assume z: "countMarks d = 0"
  have "unwrapFirst d = None"
  proof (cases "unwrapFirst d")
    case (Some d')
    from unwrapFirst_countMarks(1)[OF Some] z show ?thesis by simp
  qed simp
  then show ?thesis by (subst removeHighlights.simps) simp
qed

lemma removeHighlights_normalized:
  "isNormalized b \<Longrightarrow> isNormalized (removeHighlights b)"
  using removeHighlights_unwrapAll[OF isNormalized_upToMarks, of b] isNormalized_unwrapAll[of b]
  by simp

section \<open>The scan with its badge\<close>

subsection \<open>The badge\<close>

lemma decimal_digits: "decimal n \<noteq> [] \<and> (\<forall>u \<in> set (decimal n). 48 \<le> u \<and> u \<le> 57)"
proof (induction n rule: decimal.induct)
  case (1 n)
  show ?case
  proof (cases "n < 10")
    case True
    then have "decimal n = [48 + int n]" by (subst decimal.simps) simp
    with True show ?thesis by simp
  next
    case False
    then have d: "decimal n = decimal (n div 10) @ [48 + int (n mod 10)]"
      by (subst decimal.simps) simp
    have "int (n mod 10) < 10" by simp
    with 1[OF False] show ?thesis unfolding d by auto
  qed
qed

lemma badgeText_nonempty: "badgeText k \<noteq> []"
  by (simp add: badgeText_def)

lemma badge_facts:
  shows "\<not> isMark (badge k)" and "countMarks (badge k) = 0" and "isNormalized (badge k)"
    and "normalizedUpToMarks (badge k)" and "\<not> nestedMarks (badge k)"
    and "textContent (badge k) = badgeText k"
  by (simp_all add: badge_def isNormalizedList_def badgeText_nonempty)

lemma boundary_arith:
  "0 < (ld::nat) \<Longrightarrow>
     ((0 < i \<and> lp \<le> i - 1 \<and> i - 1 < lp + ld) \<noteq> (lp \<le> i \<and> i < lp + ld)) =
     (i = lp \<or> i = lp + ld)"
  by (cases i) auto

lemma boundary_sandwich:
  assumes P: "\<forall>u \<in> set pre. \<not> isWordChar u" and S: "\<forall>u \<in> set post. \<not> isWordChar u"
    and D: "\<forall>u \<in> set ds. isWordChar u" and ne: "ds \<noteq> []"
  shows "isWordBoundary (pre @ ds @ post) i \<longleftrightarrow> i = length pre \<or> i = length pre + length ds"
proof -
  define t where "t = pre @ ds @ post"
  have wc: "(j < length t \<and> isWordChar (t ! j)) \<longleftrightarrow>
      (length pre \<le> j \<and> j < length pre + length ds)" for j
  proof (cases "j < length pre")
    case True
    then have "t ! j = pre ! j" by (simp add: t_def nth_append)
    with True P show ?thesis by auto
  next
    case False
    show ?thesis
    proof (cases "j < length pre + length ds")
      case True
      with False have "t ! j = ds ! (j - length pre)" "j - length pre < length ds"
        by (auto simp: t_def nth_append)
      with True False D show ?thesis by (auto simp: t_def)
    next
      case b: False
      have "\<not> isWordChar (t ! j)" if "j < length t"
      proof -
        from that False b have "t ! j = post ! (j - length pre - length ds)"
          "j - length pre - length ds < length post"
          by (auto simp: t_def nth_append)
        with S show ?thesis by auto
      qed
      with b show ?thesis by auto
    qed
  qed
  have "(0 < i \<and> i \<le> length t \<and> isWordChar (t ! (i - 1))) \<longleftrightarrow>
        (0 < i \<and> (i - 1 < length t \<and> isWordChar (t ! (i - 1))))"
    by auto
  then have "isWordBoundary t i \<longleftrightarrow>
      ((0 < i \<and> length pre \<le> i - 1 \<and> i - 1 < length pre + length ds) \<noteq>
       (length pre \<le> i \<and> i < length pre + length ds))"
    unfolding isWordBoundary_def wc[of i] by (simp only: wc[of "i - 1"])
  also have "\<dots> \<longleftrightarrow> i = length pre \<or> i = length pre + length ds"
    using ne by (intro boundary_arith) simp
  finally show ?thesis unfolding t_def .
qed

lemma badgeText_boundary:
  "isWordBoundary (badgeText k) i \<longleftrightarrow> i = 5 \<or> i = 5 + length (decimal k)"
proof -
  have "isWordBoundary ([0x672C, 0x9875, 0x53D1, 0x73B0, 0x20] @ decimal k @
      [0x20, 0x4E2A, 0x751F, 0x8BCD]) i \<longleftrightarrow>
      i = length [0x672C, 0x9875, 0x53D1, 0x73B0, 0x20 :: int] \<or>
      i = length [0x672C, 0x9875, 0x53D1, 0x73B0, 0x20 :: int] + length (decimal k)"
    by (rule boundary_sandwich) (use decimal_digits[of k] in \<open>auto simp: isWordChar_def\<close>)
  then show ?thesis by (simp add: badgeText_def eval_nat_numeral)
qed

lemma canonicalize_digit:
  "48 \<le> canonicalize u \<Longrightarrow> canonicalize u \<le> 57 \<Longrightarrow> canonicalize u = u"
  by (auto simp: canonicalize_def split: if_splits)

lemma no_match_in_badge:
  assumes w: "\<forall>a \<in> set alts. a \<noteq> [] \<and> \<not> isDecimal a"
  shows "matchAt alts (badgeText k) i = None"
proof (rule ccontr)
  assume "matchAt alts (badgeText k) i \<noteq> None"
  then obtain a where a: "a \<in> set alts" and bi: "isWordBoundary (badgeText k) i"
    and lm: "literalMatch a (badgeText k) i"
    and be: "isWordBoundary (badgeText k) (i + length a)"
    unfolding matchAt_iff by blast
  from w a have ne: "a \<noteq> []" and nd: "\<not> isDecimal a" by auto
  from ne have "0 < length a" by simp
  with bi be have i: "i = 5" and l: "length a = length (decimal k)"
    unfolding badgeText_boundary by auto
  have "take (length a) (drop i (badgeText k)) = decimal k"
    unfolding i l by (simp add: badgeText_def)
  with lm have e: "map canonicalize (decimal k) = map canonicalize (units a)"
    by (simp add: literalMatch_def)
  have dk: "map canonicalize (decimal k) = decimal k"
    by (intro map_idI) (use decimal_digits[of k] in \<open>auto simp: canonicalize_def\<close>)
  have "48 \<le> (of_char c :: int) \<and> (of_char c :: int) \<le> 57" if c: "c \<in> set a" for c
  proof -
    from c have "canonicalize (of_char c) \<in> set (map canonicalize (units a))"
      by (auto simp: units_def)
    then have "canonicalize (of_char c) \<in> set (decimal k)" using e dk by simp
    with decimal_digits[of k] have r: "48 \<le> canonicalize (of_char c)" "canonicalize (of_char c) \<le> 57"
      by auto
    from canonicalize_digit[OF r] r show ?thesis by simp
  qed
  with ne nd show False by (auto simp: isDecimal_def)
qed

lemma regexExec_no_match:
  "(\<forall>j. matchAt alts str j = None) \<Longrightarrow> regexExec alts str i = None"
proof (induction alts str i rule: regexExec.induct)
  case (1 alts str i)
  show ?case
  proof (cases "i > length str")
    case True
    then show ?thesis by (simp add: regexExec_out)
  next
    case False
    with 1(2) have "regexExec alts str i = regexExec alts str (i + 1)"
      by (simp add: regexExec_miss)
    with 1(1)[OF False _ 1(2)] 1(2) show ?thesis by simp
  qed
qed

lemma highlightNode_badge:
  assumes w: "\<forall>a \<in> set alts. a \<noteq> [] \<and> \<not> isDecimal a"
  shows "highlightNode alts vmap env parent (badge k) = Some ([badge k], 0)"
proof -
  have "regexExec alts (badgeText k) 0 = None"
    using no_match_in_badge[OF w] by (simp add: regexExec_no_match)
  then show ?thesis by (simp add: badge_def)
qed

lemma highlightChildren_append:
  "highlightChildren alts vmap env parent (xs @ ys) =
     (case highlightChildren alts vmap env parent xs of
        None \<Rightarrow> None
      | Some (xs', k) \<Rightarrow>
          (case highlightChildren alts vmap env parent ys of
             None \<Rightarrow> None
           | Some (ys', m) \<Rightarrow> Some (xs' @ ys', k + m)))"
  by (induction xs) (auto split: option.splits)


subsection \<open>An element at the end of a list of children\<close>

lemma mergeText_append_Element:
  "mergeText x (ys @ Element a ds # r) = mergeText x ys @ Element a ds # r"
proof (cases x)
  case (Text s)
  show ?thesis
  proof (cases ys)
    case Nil
    with Text show ?thesis by simp
  next
    case (Cons y ys')
    with Text show ?thesis by (cases y) simp_all
  qed
next
  case (Element b es)
  then show ?thesis by simp
qed

lemma foldr_mergeText_Element:
  "foldr mergeText xs (Element a ds # r) = mergeTexts xs @ Element a ds # r"
proof (induction xs)
  case Nil
  show ?case by (simp add: mergeTexts_def)
next
  case (Cons x xs)
  have "foldr mergeText (x # xs) (Element a ds # r) =
        mergeText x (mergeTexts xs @ Element a ds # r)"
    using Cons by simp
  also have "\<dots> = mergeText x (mergeTexts xs) @ Element a ds # r"
    by (rule mergeText_append_Element)
  finally show ?case by (simp add: mergeTexts_Cons)
qed

lemma mergeTexts_snoc_Element:
  "mergeTexts (xs @ [Element a ds]) = mergeTexts xs @ [Element a ds]"
proof -
  have "mergeTexts [Element a ds] = [Element a ds]" by (simp add: mergeTexts_def)
  then show ?thesis by (simp add: mergeTexts_append foldr_mergeText_Element)
qed

lemma noAdjacentTexts_snoc_None: "noAdjacentTexts (sk @ [None]) = noAdjacentTexts sk"
  by (induction sk rule: noAdjacentTexts.induct) simp_all

lemma isNormalizedList_snoc_Element:
  "isNormalizedList (xs @ [Element a ds]) = isNormalizedList xs"
  by (simp add: isNormalizedList_def skeleton_append noAdjacentTexts_snoc_None)

lemma unwrapFirstIn_snoc:
  "\<not> isMark x \<Longrightarrow>
     unwrapFirstIn (cs @ [x]) =
       (case unwrapFirstIn cs of
          Some (cs', d) \<Rightarrow> Some (cs' @ [x], d)
        | None \<Rightarrow> (case unwrapFirst x of Some x' \<Rightarrow> Some (cs @ [x'], False) | None \<Rightarrow> None))"
  by (induction cs) (auto split: option.splits)

lemma unwrapFirst_trailing:
  assumes u: "unwrapFirst (Element a (cs @ [Element b ds])) = Some d'"
    and nm: "\<not> isMark (Element b ds)"
  shows "\<exists>cs2 b2 ds2. d' = Element a (cs2 @ [Element b2 ds2]) \<and> \<not> isMark (Element b2 ds2) \<and>
           concat (map textContent cs2) = concat (map textContent cs) \<and>
           textContent (Element b2 ds2) = textContent (Element b ds)"
proof (cases "unwrapFirstIn cs")
  case (Some r)
  obtain cs' d where r: "r = (cs', d)" by (cases r)
  from unwrapFirst_textContent(2)[OF Some[unfolded r]]
  have t: "concat (map textContent cs') = concat (map textContent cs)" .
  from u Some r nm have d': "d' = (if d then normalizeNode (Element a (cs' @ [Element b ds]))
      else Element a (cs' @ [Element b ds]))"
    by (simp add: unwrapFirstIn_snoc del: normalizeNode.simps isMark.simps)
  show ?thesis
  proof (cases d)
    case False
    with d' have "d' = Element a (cs' @ [Element b ds])" by simp
    with t nm show ?thesis by blast
  next
    case True
    obtain ds2 where n: "normalizeNode (Element b ds) = Element b ds2" by simp
    have "d' = Element a (mergeTexts (map normalizeNode cs') @ [Element b ds2])"
      using d' True n by (simp add: mergeTexts_snoc_Element)
    moreover have "\<not> isMark (Element b ds2)"
      using nm isMark_normalize[of "Element b ds"] unfolding n by simp
    moreover have "concat (map textContent (mergeTexts (map normalizeNode cs'))) =
        concat (map textContent cs)"
      using t by (simp add: textContent_mergeTexts textContent_normalizeNode comp_def)
    moreover have "textContent (Element b ds2) = textContent (Element b ds)"
      using textContent_normalizeNode[of "Element b ds"] unfolding n .
    ultimately show ?thesis by blast
  qed
next
  case None
  with nm have "unwrapFirstIn (cs @ [Element b ds]) =
      (case unwrapFirst (Element b ds) of Some x' \<Rightarrow> Some (cs @ [x'], False) | None \<Rightarrow> None)"
    by (simp add: unwrapFirstIn_snoc del: unwrapFirst.simps isMark.simps)
  with u[unfolded unwrapFirst.simps(2)[of a "cs @ [Element b ds]"]]
  obtain x' where x: "unwrapFirst (Element b ds) = Some x'"
    and d': "d' = Element a (cs @ [x'])"
    by (auto simp del: unwrapFirst.simps isMark.simps split: option.splits)
  from x obtain ds2 where e: "x' = Element b ds2"
    by (auto split: option.splits if_splits)
  from unwrapFirst_countMarks(1)[OF x] nm have "\<not> isMark x'" by simp
  with d' e unwrapFirst_textContent(1)[OF x] show ?thesis by blast
qed

lemma removeHighlights_trailing:
  assumes "d = Element a (cs @ [Element b ds])" and "\<not> isMark (Element b ds)"
  shows "\<exists>cs2 b2 ds2. removeHighlights d = Element a (cs2 @ [Element b2 ds2]) \<and>
           \<not> isMark (Element b2 ds2) \<and>
           concat (map textContent cs2) = concat (map textContent cs) \<and>
           textContent (Element b2 ds2) = textContent (Element b ds)"
  using assms
proof (induction d arbitrary: cs b ds rule: removeHighlights.induct)
  case (1 d)
  show ?case
  proof (cases "unwrapFirst d")
    case None
    then have "removeHighlights d = d" by (subst removeHighlights.simps) simp
    with 1(2,3) show ?thesis by blast
  next
    case (Some d')
    then have r: "removeHighlights d = removeHighlights d'"
      by (subst removeHighlights.simps) simp
    from unwrapFirst_trailing[OF Some[unfolded 1(2)] 1(3)] obtain cs2 b2 ds2 where
      d': "d' = Element a (cs2 @ [Element b2 ds2])" and nm: "\<not> isMark (Element b2 ds2)"
      and t: "concat (map textContent cs2) = concat (map textContent cs)"
        "textContent (Element b2 ds2) = textContent (Element b ds)"
      by blast
    from 1(1)[OF Some d' nm] obtain cs3 b3 ds3 where
      "removeHighlights d' = Element a (cs3 @ [Element b3 ds3])" "\<not> isMark (Element b3 ds3)"
      "concat (map textContent cs3) = concat (map textContent cs2)"
      "textContent (Element b3 ds3) = textContent (Element b2 ds2)"
      by blast
    with r t show ?thesis by (metis (no_types))
  qed
qed

lemma highlightChildren_trailing:
  assumes h: "highlightChildren alts vmap env parent (cs @ [Element b ds]) = Some (r, n)"
  shows "\<exists>cs' ds' n1 n2. r = cs' @ [Element b ds'] \<and> n = n1 + n2 \<and>
           highlightChildren alts vmap env parent cs = Some (cs', n1)"
  using h by (auto simp: highlightChildren_append split: option.splits)

subsection \<open>Removing the markers of a scan\<close>

lemma unwrapAll_badge: "unwrapAll (badge k) = badge k"
  by (rule unwrapAll_id) (rule badge_facts)+

lemma removeHighlights_highlighted:
  assumes l: "isNormalizedList cs"
    and c: "\<forall>c \<in> set cs. isNormalized c \<and> \<not> isMark c \<and> countMarks c = 0"
    and h: "highlightChildren alts vmap env a cs = Some (cs', n)"
    and t: "rear = [] \<or> rear = [badge j]"
  shows "removeHighlights (Element a (cs' @ rear)) = Element a (cs @ rear)"
proof -
  from c have cn: "\<forall>c \<in> set cs. isNormalized c" by blast
  from highlight_upToMarks(2)[OF cn h]
  have a1: "\<forall>x \<in> set cs'. \<not> isMark x \<longrightarrow> normalizedUpToMarks x"
    and b1: "(\<exists>x \<in> set cs'. isMark x) \<or> skeleton cs' = skeleton cs" by blast+
  from b1 l have b2: "(\<exists>x \<in> set cs'. isMark x) \<or> isNormalizedList cs'"
    using isNormalizedList_skeleton[of cs' cs] by blast
  have r1: "\<forall>x \<in> set rear. \<not> isMark x \<and> normalizedUpToMarks x"
    using t badge_facts(1,4) by auto
  have r2: "isNormalizedList (xs @ rear) = isNormalizedList xs" for xs
    using t by (auto simp: badge_def isNormalizedList_snoc_Element)
  have r3: "mergeTexts (map textOfMark (xs @ rear)) = mergeTexts (map textOfMark xs) @ rear" for xs
  proof (cases "rear = []")
    case True
    then show ?thesis by simp
  next
    case False
    with t have rear: "rear = [badge j]" by simp
    have "map textOfMark (xs @ rear) = map textOfMark xs @ [badge j]"
      unfolding rear using badge_facts(1)[of j] unwrapAll_badge[of j] by simp
    also have "mergeTexts \<dots> = mergeTexts (map textOfMark xs) @ [badge j]"
      unfolding badge_def by (rule mergeTexts_snoc_Element)
    finally show ?thesis unfolding rear .
  qed
  have u: "normalizedUpToMarks (Element a (cs' @ rear))"
    using a1 b2 r1 r2[of cs'] by auto
  have z: "countMarks (Element a cs) = 0" using c by (simp add: sum_list_eq_0_iff)
  have "isNormalized (Element a cs)" using l cn by simp
  from unwrapAll_id[OF z isNormalized_upToMarks[OF this]]
  have id: "mergeTexts (map textOfMark cs) = cs" by simp
  have "removeHighlights (Element a (cs' @ rear)) = unwrapAll (Element a (cs' @ rear))"
    using removeHighlights_unwrapAll[OF u] .
  also have "\<dots> = Element a (mergeTexts (map textOfMark cs') @ rear)"
    using r3[of cs'] by simp
  also have "\<dots> = Element a (cs @ rear)"
    using highlight_unwrapAll(2)[OF h] id by simp
  finally show ?thesis .
qed


lemma mergeTexts_rear:
  assumes t: "rear = [] \<or> rear = [badge j]"
  shows "mergeTexts (map textOfMark (xs @ rear)) = mergeTexts (map textOfMark xs) @ rear"
proof (cases "rear = []")
  case True
  then show ?thesis by simp
next
  case False
  with t have rear: "rear = [badge j]" by simp
  have "map textOfMark (xs @ rear) = map textOfMark xs @ [badge j]"
    unfolding rear using badge_facts(1)[of j] unwrapAll_badge[of j] by simp
  also have "mergeTexts \<dots> = mergeTexts (map textOfMark xs) @ [badge j]"
    unfolding badge_def by (rule mergeTexts_snoc_Element)
  finally show ?thesis unfolding rear .
qed

subsection \<open>A pass without a match\<close>

lemma wrapMatches_count:
  assumes "wrapMatches alts vmap str i frag k = Some y"
  shows "k \<le> snd y"
proof (induction alts vmap str i frag k y rule: wrapMatches.raw_induct)
  case (1 w alts vmap str i frag k y)
  show ?case
  proof (cases "regexExec alts str i")
    case None
    with 1(2) show ?thesis by auto
  next
    case (Some q)
    obtain idx len where q: "q = (idx, len)" by (cases q)
    from 1(2) Some q obtain frag' where "w alts vmap str (idx + len) frag' (k + 1) = Some y"
      by auto
    from 1(1)[OF this] show ?thesis by simp
  qed
qed fact

lemma wrapMatches_positive:
  assumes e: "regexExec alts str 0 \<noteq> None" and w: "wrapMatches alts vmap str 0 [] 0 = Some (ns, k)"
  shows "0 < k"
proof -
  from e obtain idx len where s: "regexExec alts str 0 = Some (idx, len)" by auto
  from w s obtain frag' where "wrapMatches alts vmap str (idx + len) frag' (0 + 1) = Some (ns, k)"
    by (subst (asm) wrapMatches.simps) auto
  from wrapMatches_count[OF this] show ?thesis by simp
qed

lemma highlight_zero:
  shows "highlightNode alts vmap env parent n = Some (ns, 0) \<Longrightarrow> ns = [n]"
    and "highlightChildren alts vmap env parent cs = Some (cs', 0) \<Longrightarrow> cs' = cs"
proof (induction alts vmap env parent n and alts vmap env parent cs arbitrary: ns and cs'
    rule: highlightNode_highlightChildren.induct)
  case (1 alts vmap env parent t)
  show ?case
  proof (cases "acceptNode env parent \<and> t \<noteq> [] \<and> regexExec alts t 0 \<noteq> None")
    case True
    with 1 have w: "wrapMatches alts vmap t 0 [] 0 = Some (ns, 0)" by simp
    from True have "regexExec alts t 0 \<noteq> None" by simp
    from wrapMatches_positive[OF this w] show ?thesis by simp
  next
    case False
    with 1 show ?thesis by auto
  qed
next
  case (2 alts vmap env parent a cs)
  from 2(2) obtain cs' where h: "highlightChildren alts vmap (enter env parent) a cs = Some (cs', 0)"
    and ns: "ns = [Element a cs']"
    by (auto split: option.splits)
  from 2(1)[OF h] ns show ?case by simp
next
  case (3 alts vmap env parent)
  then show ?case by simp
next
  case (4 alts vmap env parent c cs)
  from 4(3) obtain ns ms where hn: "highlightNode alts vmap env parent c = Some (ns, 0)"
    and hc: "highlightChildren alts vmap env parent cs = Some (ms, 0)"
    and r: "cs' = ns @ ms"
    by (auto split: option.splits)
  from 4(1)[OF hn] 4(2)[OF hn _ hc] r show ?case by simp
qed

subsection \<open>The scan as a whole\<close>

lemma removeHighlights_Text: "removeHighlights (Text t) = Text t"
  by (rule removeHighlights_no_marks) simp

lemma removeHighlights_Element:
  "removeHighlights (Element a cs) = Element b ds \<Longrightarrow> b = a"
proof (induction "Element a cs" arbitrary: cs rule: removeHighlights.induct)
  case 1
  show ?case
  proof (cases "unwrapFirst (Element a cs)")
    case None
    with 1(2) show ?thesis by (subst (asm) removeHighlights.simps) simp
  next
    case (Some d')
    then obtain cs' where d': "d' = Element a cs'" by (auto split: option.splits if_splits)
    from 1(2) Some have "removeHighlights d' = Element b ds"
      by (subst (asm) removeHighlights.simps) simp
    from 1(1)[OF Some[unfolded d'] this[unfolded d']] show ?thesis .
  qed
qed

lemma parsePattern_words:
  "vocabList \<noteq> [] \<Longrightarrow>
     parsePattern (patternSource (map (\<lambda>e. escapeRegExp (word e)) vocabList)) =
       Some (map word vocabList)"
  using parsePattern_escaped[of "map word vocabList"] by (simp add: comp_def)

lemma scanPageForVocab_empty:
  "scanPageForVocab [] p = Some (0, p\<lparr> body := removeHighlights (body p) \<rparr>)"
  by (simp add: scanPageForVocab_def)

lemma scanPageForVocab_leaf:
  "removeHighlights (body p) = Text t \<Longrightarrow>
     scanPageForVocab vocabList p = Some (0, p\<lparr> body := Text t \<rparr>)"
  by (cases "vocabList = []") (simp_all add: scanPageForVocab_def parsePattern_words)

lemma scanPageForVocab_body:
  assumes "vocabList \<noteq> []" and "removeHighlights (body p) = Element a cs"
  shows "scanPageForVocab vocabList p =
     (case highlightChildren (map word vocabList) (vocabMap vocabList)
             \<lparr> inRoot = False, editable = False \<rparr> a cs of
        None \<Rightarrow> None
      | Some (cs', n) \<Rightarrow>
          Some (n, if n > 0 then showBadge n (p\<lparr> body := Element a cs' \<rparr>)
                   else p\<lparr> body := Element a cs' \<rparr>))"
  using assms by (simp add: scanPageForVocab_def parsePattern_words)

lemma scanPageForVocab_cases:
  assumes s: "scanPageForVocab vocabList p = Some (n, p1)"
  obtains (empty) "vocabList = []" "n = 0" "p1 = p\<lparr> body := removeHighlights (body p) \<rparr>"
  | (leaf) t where "removeHighlights (body p) = Text t" "n = 0" "p1 = p\<lparr> body := Text t \<rparr>"
  | (body) a cs cs' where "vocabList \<noteq> []" "removeHighlights (body p) = Element a cs"
      "highlightChildren (map word vocabList) (vocabMap vocabList)
         \<lparr> inRoot = False, editable = False \<rparr> a cs = Some (cs', n)"
      "p1 = (if n > 0 then showBadge n (p\<lparr> body := Element a cs' \<rparr>)
             else p\<lparr> body := Element a cs' \<rparr>)"
proof (cases "vocabList = []")
  case True
  with s have "n = 0" "p1 = p\<lparr> body := removeHighlights (body p) \<rparr>"
    by (simp_all add: scanPageForVocab_empty)
  with True show ?thesis by (rule empty)
next
  case False
  show ?thesis
  proof (cases "removeHighlights (body p)")
    case (Text t)
    with s have "n = 0" "p1 = p\<lparr> body := Text t \<rparr>" by (simp_all add: scanPageForVocab_leaf)
    with Text show ?thesis by (rule leaf)
  next
    case (Element a cs)
    from s[unfolded scanPageForVocab_body[OF False Element]] obtain cs' where
      "highlightChildren (map word vocabList) (vocabMap vocabList)
         \<lparr> inRoot = False, editable = False \<rparr> a cs = Some (cs', n)"
      "p1 = (if n > 0 then showBadge n (p\<lparr> body := Element a cs' \<rparr>)
             else p\<lparr> body := Element a cs' \<rparr>)"
      by (auto split: option.splits)
    with False Element show ?thesis by (rule body)
  qed
qed

lemma scanPageForVocab_returns:
  assumes ne: "\<forall>e \<in> set vocabList. word e \<noteq> []"
  shows "\<exists>n p1. scanPageForVocab vocabList p = Some (n, p1)"
proof (cases "vocabList = []")
  case True
  then show ?thesis by (simp add: scanPageForVocab_empty)
next
  case False
  from ne have ne': "\<forall>a \<in> set (map word vocabList). a \<noteq> []" by simp
  show ?thesis
  proof (cases "removeHighlights (body p)")
    case (Text t)
    then show ?thesis by (simp add: scanPageForVocab_leaf)
  next
    case (Element a cs)
    from highlight_returns(2)[OF ne', of "vocabMap vocabList" "\<lparr> inRoot = False, editable = False \<rparr>" a cs]
    obtain cs' k where "highlightChildren (map word vocabList) (vocabMap vocabList)
         \<lparr> inRoot = False, editable = False \<rparr> a cs = Some (cs', k)" by auto
    then show ?thesis by (simp add: scanPageForVocab_body[OF False Element])
  qed
qed

lemma page_update: "p\<lparr> body := b \<rparr> = \<lparr> body = b, activeBadge = activeBadge p \<rparr>"
  by (cases p) simp

lemma body_of_Element:
  assumes "removeHighlights (body p) = Element a cs"
  obtains cs0 where "body p = Element a cs0"
proof (cases "body p")
  case (Text t)
  with assms show ?thesis by (simp add: removeHighlights_Text)
next
  case (Element a0 cs0)
  with assms removeHighlights_Element[of a0 cs0 a cs] that show ?thesis by simp
qed

lemma showBadge_Element:
  "body (showBadge n \<lparr> body = Element a cs, activeBadge = f \<rparr>) =
     Element a ((if f then butlast cs else cs) @ [badge n])"
  "activeBadge (showBadge n \<lparr> body = Element a cs, activeBadge = f \<rparr>)"
  by (simp_all add: showBadge_def)

lemma scan_textContent:
  assumes s: "scanPageForVocab vocabList p = Some (n, p1)" and bp: "badgeInPlace p"
  shows "textContent (body p1) = textContent (body (if n > 0 then showBadge n p else p))"
  using s
proof (cases rule: scanPageForVocab_cases)
  case empty
  then show ?thesis by (simp add: removeHighlights_textContent)
next
  case (leaf t)
  with removeHighlights_textContent[of "body p"] show ?thesis by simp
next
  case (body a cs cs')
  from highlight_unwrapAll(2)[OF body(3)]
  have t1: "concat (map textContent cs') = concat (map textContent cs)" by simp
  from body(2) removeHighlights_textContent[of "body p"]
  have t2: "concat (map textContent cs) = textContent (body p)" by simp
  show ?thesis
  proof (cases "n > 0")
    case False
    with body(4) t1 t2 show ?thesis by simp
  next
    case True
    from body(2) obtain cs0 where b: "body p = Element a cs0" by (rule body_of_Element)
    have p: "p = \<lparr> body = Element a cs0, activeBadge = activeBadge p \<rparr>"
      using b by (cases p) simp
    have p1: "body p1 = Element a ((if activeBadge p then butlast cs' else cs') @ [badge n])"
      using body(4) True by (simp add: page_update showBadge_Element)
    have r: "body (showBadge n p) =
        Element a ((if activeBadge p then butlast cs0 else cs0) @ [badge n])"
      by (subst p) (simp add: showBadge_Element)
    show ?thesis
    proof (cases "activeBadge p")
      case False
      with p1 r t1 t2 b True show ?thesis by simp
    next
      case active: True
      with bp b obtain csA k where cs0: "cs0 = csA @ [badge k]"
        by (auto simp: badgeInPlace_def)
      obtain bb bt where bk: "badge k = Element bb bt" by (simp add: badge_def)
      have nm: "\<not> isMark (Element bb bt)" using badge_facts(1)[of k] unfolding bk .
      from removeHighlights_trailing[OF b[unfolded cs0 bk] nm] body(2)
      obtain cs2 b2 ds2 where cs: "cs = cs2 @ [Element b2 ds2]"
        and t3: "concat (map textContent cs2) = concat (map textContent csA)"
        by auto
      from highlightChildren_trailing[OF body(3)[unfolded cs]] obtain cs2' ds' n1 where
        cs': "cs' = cs2' @ [Element b2 ds']"
        and h2: "highlightChildren (map word vocabList) (vocabMap vocabList)
           \<lparr> inRoot = False, editable = False \<rparr> a cs2 = Some (cs2', n1)"
        by blast
      from highlight_unwrapAll(2)[OF h2]
      have t4: "concat (map textContent cs2') = concat (map textContent cs2)" by simp
      from p1 r active cs' cs0 t3 t4 True show ?thesis by simp
    qed
  qed
qed

lemma scan_normalized:
  assumes nb: "isNormalized (body p)" and bp: "badgeInPlace p" and el: "body p = Element a cs0"
  obtains cs rear where
    "removeHighlights (body p) = Element a (cs @ rear)"
    "rear = [] \<and> \<not> activeBadge p \<or> (\<exists>k. rear = [badge k]) \<and> activeBadge p"
    "isNormalizedList cs" "\<forall>c \<in> set cs. isNormalized c \<and> \<not> isMark c \<and> countMarks c = 0"
    "cs = mergeTexts (map textOfMark (if activeBadge p then butlast cs0 else cs0))"
    "isNormalized (Element a (if activeBadge p then butlast cs0 else cs0))"
    "cs0 = (if activeBadge p then butlast cs0 else cs0) @ rear"
proof -
  define csA where "csA = (if activeBadge p then butlast cs0 else cs0)"
  define rear where "rear = (if activeBadge p then [last cs0] else [])"
  have r: "rear = [] \<and> \<not> activeBadge p \<or> (\<exists>k. rear = [badge k]) \<and> activeBadge p"
    and cs0: "cs0 = csA @ rear"
    using bp el by (auto simp: badgeInPlace_def rear_def csA_def)
  then have r': "rear = [] \<or> (\<exists>k. rear = [badge k])" by blast
  have nA: "isNormalized (Element a csA)"
    using nb r' unfolding el cs0 by (auto simp: badge_def isNormalizedList_snoc_Element)
  define cs where "cs = mergeTexts (map textOfMark csA)"
  have u: "unwrapAll (Element a csA) = Element a cs" by (simp add: cs_def)
  from isNormalized_unwrapAll[of "Element a csA"] countMarks_unwrapAll[of "Element a csA"]
  have l: "isNormalizedList cs"
    and c: "\<forall>c \<in> set cs. isNormalized c \<and> \<not> isMark c \<and> countMarks c = 0"
    unfolding u by (auto simp: sum_list_eq_0_iff)
  have "removeHighlights (body p) = unwrapAll (body p)"
    using removeHighlights_unwrapAll[OF isNormalized_upToMarks[OF nb]] .
  also have "\<dots> = Element a (mergeTexts (map textOfMark (csA @ rear)))"
    unfolding el cs0 by simp
  also have "\<dots> = Element a (cs @ rear)"
    using r' mergeTexts_rear[of rear _ csA] unfolding cs_def by auto
  finally have d: "removeHighlights (body p) = Element a (cs @ rear)" .
  show ?thesis
    by (rule that[OF d r l c cs_def[unfolded csA_def] nA[unfolded csA_def] cs0[unfolded csA_def]])
qed


lemma highlightChildren_rear:
  assumes h: "highlightChildren alts vmap env a (cs @ rear) = Some (r, n)"
    and t: "rear = [] \<or> (\<exists>k. rear = [badge k])"
  obtains cs' n1 where "highlightChildren alts vmap env a cs = Some (cs', n1)"
    "(if rear = [] then r else butlast r) = cs'"
proof (cases "rear = []")
  case True
  with h that show ?thesis by simp
next
  case False
  with t obtain k where "rear = [badge k]" by blast
  then obtain b ds where rear: "rear = [Element b ds]" by (simp add: badge_def)
  from highlightChildren_trailing[OF h[unfolded rear, simplified]] obtain cs' ds' n1 where
    "r = cs' @ [Element b ds']" "highlightChildren alts vmap env a cs = Some (cs', n1)"
    by blast
  with False that show ?thesis by simp
qed

lemma removeHighlights_scanned:
  assumes s: "scanPageForVocab vocabList p = Some (n, p1)"
    and nb: "isNormalized (body p)" and bp: "badgeInPlace p"
  shows "removeHighlights (body p1) =
         removeHighlights (body (if n > 0 then showBadge n p else p))"
  using s
proof (cases rule: scanPageForVocab_cases)
  case empty
  with removeHighlights_no_marks[OF removeHighlights_countMarks[of "body p"]] show ?thesis by simp
next
  case (leaf t)
  then show ?thesis by (simp add: removeHighlights_Text)
next
  case (body a cs1 cs1')
  from body(2) obtain cs0 where b: "body p = Element a cs0" by (rule body_of_Element)
  from nb bp b obtain cs rear where
    d: "removeHighlights (body p) = Element a (cs @ rear)"
    and r: "rear = [] \<and> \<not> activeBadge p \<or> (\<exists>k. rear = [badge k]) \<and> activeBadge p"
    and l: "isNormalizedList cs"
    and c: "\<forall>c \<in> set cs. isNormalized c \<and> \<not> isMark c \<and> countMarks c = 0"
    and cs: "cs = mergeTexts (map textOfMark (if activeBadge p then butlast cs0 else cs0))"
    and nA: "isNormalized (Element a (if activeBadge p then butlast cs0 else cs0))"
    by (rule scan_normalized)
  from d body(2) have cs1: "cs1 = cs @ rear" by simp
  show ?thesis
  proof (cases "n > 0")
    case False
    with body(3) highlight_zero(2) have "cs1' = cs1" by simp
    with False body(2,4) removeHighlights_no_marks[OF removeHighlights_countMarks[of "body p"]]
    show ?thesis by simp
  next
    case True
    from r have r': "rear = [] \<or> (\<exists>k. rear = [badge k])" by blast
    from body(3)[unfolded cs1] r' obtain cs' n1 where
      h: "highlightChildren (map word vocabList) (vocabMap vocabList)
            \<lparr> inRoot = False, editable = False \<rparr> a cs = Some (cs', n1)"
      and e: "(if rear = [] then cs1' else butlast cs1') = cs'"
      by (rule highlightChildren_rear)
    from r have ra: "activeBadge p = (rear \<noteq> [])" by auto
    have "body p1 = Element a ((if activeBadge p then butlast cs1' else cs1') @ [badge n])"
      using body(4) True by (simp add: page_update showBadge_Element)
    with e ra have p1: "body p1 = Element a (cs' @ [badge n])" by auto
    have 1: "removeHighlights (body p1) = Element a (cs @ [badge n])"
      unfolding p1 by (rule removeHighlights_highlighted[OF l c h]) simp
    have p: "p = \<lparr> body = Element a cs0, activeBadge = activeBadge p \<rparr>"
      using b by (cases p) simp
    define csA where "csA = (if activeBadge p then butlast cs0 else cs0)"
    have sb: "body (showBadge n p) = Element a (csA @ [badge n])"
      unfolding csA_def by (subst p) (simp add: showBadge_Element)
    have "isNormalized (Element a (csA @ [badge n]))"
      using nA badge_facts(3)[of n] unfolding csA_def[symmetric]
      by (simp add: badge_def isNormalizedList_snoc_Element)
    from removeHighlights_unwrapAll[OF isNormalized_upToMarks[OF this]]
    have "removeHighlights (body (showBadge n p)) =
        Element a (mergeTexts (map textOfMark (csA @ [badge n])))"
      unfolding sb by simp
    also have "\<dots> = Element a (cs @ [badge n])"
      using mergeTexts_rear[of "[badge n]" n csA] cs unfolding csA_def[symmetric] by simp
    finally show ?thesis using 1 True by simp
  qed
qed

lemma scan_again:
  assumes l: "isNormalizedList cs"
    and c: "\<forall>c \<in> set cs. isNormalized c \<and> \<not> isMark c \<and> countMarks c = 0"
    and h: "highlightChildren (map word vocabList) (vocabMap vocabList)
              \<lparr> inRoot = False, editable = False \<rparr> a cs = Some (cs', n)"
    and t: "rear = [] \<or> rear = [badge j]"
    and w: "\<forall>e \<in> set vocabList. word e \<noteq> [] \<and> \<not> isDecimal (word e)"
    and ne: "vocabList \<noteq> []"
  shows "scanPageForVocab vocabList \<lparr> body = Element a (cs' @ rear), activeBadge = (rear \<noteq> []) \<rparr> =
     Some (n, if n > 0 then \<lparr> body = Element a (cs' @ [badge n]), activeBadge = True \<rparr>
              else \<lparr> body = Element a (cs' @ rear), activeBadge = (rear \<noteq> []) \<rparr>)"
proof -
  let ?p = "\<lparr> body = Element a (cs' @ rear), activeBadge = (rear \<noteq> []) \<rparr>"
  have d: "removeHighlights (body ?p) = Element a (cs @ rear)"
    using removeHighlights_highlighted[OF l c h t] by simp
  from w have w': "\<forall>a \<in> set (map word vocabList). a \<noteq> [] \<and> \<not> isDecimal a" by simp
  have hr: "highlightChildren (map word vocabList) (vocabMap vocabList)
      \<lparr> inRoot = False, editable = False \<rparr> a rear = Some (rear, 0)"
    using t highlightNode_badge[OF w'] by auto
  have "highlightChildren (map word vocabList) (vocabMap vocabList)
      \<lparr> inRoot = False, editable = False \<rparr> a (cs @ rear) = Some (cs' @ rear, n)"
    by (simp add: highlightChildren_append h hr)
  then have "scanPageForVocab vocabList ?p =
      Some (n, if n > 0 then showBadge n (?p\<lparr> body := Element a (cs' @ rear) \<rparr>)
               else ?p\<lparr> body := Element a (cs' @ rear) \<rparr>)"
    by (simp add: scanPageForVocab_body[OF ne d])
  moreover have "showBadge n (?p\<lparr> body := Element a (cs' @ rear) \<rparr>) =
      \<lparr> body = Element a (cs' @ [badge n]), activeBadge = True \<rparr>"
    using t by (auto simp: showBadge_def)
  ultimately show ?thesis by simp
qed

lemma scan_first:
  assumes d: "removeHighlights (body p) = Element a (cs @ rear)"
    and r: "rear = [] \<and> \<not> activeBadge p \<or> (\<exists>k. rear = [badge k]) \<and> activeBadge p"
    and h: "highlightChildren (map word vocabList) (vocabMap vocabList)
              \<lparr> inRoot = False, editable = False \<rparr> a cs = Some (cs', n)"
    and w: "\<forall>e \<in> set vocabList. word e \<noteq> [] \<and> \<not> isDecimal (word e)"
    and ne: "vocabList \<noteq> []"
  shows "scanPageForVocab vocabList p =
     Some (n, \<lparr> body = Element a (cs' @ (if n > 0 then [badge n] else rear)),
                activeBadge = ((if n > 0 then [badge n] else rear) \<noteq> []) \<rparr>)"
proof -
  from w have w': "\<forall>a \<in> set (map word vocabList). a \<noteq> [] \<and> \<not> isDecimal a" by simp
  have hr: "highlightChildren (map word vocabList) (vocabMap vocabList)
      \<lparr> inRoot = False, editable = False \<rparr> a rear = Some (rear, 0)"
    using r highlightNode_badge[OF w'] by auto
  have "highlightChildren (map word vocabList) (vocabMap vocabList)
      \<lparr> inRoot = False, editable = False \<rparr> a (cs @ rear) = Some (cs' @ rear, n)"
    by (simp add: highlightChildren_append h hr)
  then have "scanPageForVocab vocabList p =
      Some (n, if n > 0 then showBadge n (p\<lparr> body := Element a (cs' @ rear) \<rparr>)
               else p\<lparr> body := Element a (cs' @ rear) \<rparr>)"
    by (simp add: scanPageForVocab_body[OF ne d])
  moreover have "showBadge n (p\<lparr> body := Element a (cs' @ rear) \<rparr>) =
      \<lparr> body = Element a (cs' @ [badge n]), activeBadge = True \<rparr>"
    using r by (auto simp: showBadge_def)
  moreover have "p\<lparr> body := Element a (cs' @ rear) \<rparr> =
      \<lparr> body = Element a (cs' @ rear), activeBadge = (rear \<noteq> []) \<rparr>"
    using r by (auto simp: page_update)
  ultimately show ?thesis by simp
qed

lemma countMarks_not_nested: "countMarks d = 0 \<Longrightarrow> \<not> nestedMarks d"
  by (induction d) (auto simp: sum_list_eq_0_iff)

lemma sum_list_butlast_zero:
  "sum_list (map f cs) = (0::nat) \<Longrightarrow> sum_list (map f (butlast cs)) = 0"
  by (auto simp: sum_list_eq_0_iff dest: in_set_butlastD)

lemma countMarks_badgeTimeout:
  "countMarks (body q) = 0 \<Longrightarrow> countMarks (body (badgeTimeout q)) = 0"
  by (cases "body q") (simp_all add: badgeTimeout_def sum_list_butlast_zero)

lemma showBadge_normalized:
  assumes nb: "isNormalized (body p)" and bp: "badgeInPlace p"
  shows "isNormalized (body (showBadge n p))"
proof (cases "body p")
  case (Text t)
  then show ?thesis by (simp add: showBadge_def)
next
  case (Element a cs0)
  show ?thesis
  proof (cases "activeBadge p")
    case False
    with nb Element badge_facts(3)[of n] show ?thesis
      by (simp add: showBadge_def badge_def isNormalizedList_snoc_Element)
  next
    case True
    with bp Element obtain csA k where "cs0 = csA @ [badge k]"
      by (auto simp: badgeInPlace_def)
    with nb Element True badge_facts(3)[of n] show ?thesis
      by (simp add: showBadge_def badge_def isNormalizedList_snoc_Element)
  qed
qed

lemma countMarks_butlast:
  assumes "countMarks (Element a cs) = 0"
  shows "countMarks (Element a (butlast cs)) = 0"
proof -
  from assms have "\<forall>c \<in> set cs. \<not> isMark c \<and> countMarks c = 0"
    by (auto simp: sum_list_eq_0_iff)
  then have "\<forall>c \<in> set (butlast cs). \<not> isMark c \<and> countMarks c = 0"
    by (blast dest: in_set_butlastD)
  then show ?thesis by (simp add: sum_list_eq_0_iff)
qed

lemma countMarks_snoc_badge:
  "countMarks (Element a cs) = 0 \<Longrightarrow> countMarks (Element a (cs @ [badge n])) = 0"
  using badge_facts(1,2)[of n] by simp

lemma showBadge_countMarks:
  assumes z: "countMarks (body p) = 0"
  shows "countMarks (body (showBadge n p)) = 0"
proof (cases "body p")
  case (Text t)
  then show ?thesis by (simp add: showBadge_def)
next
  case (Element a cs0)
  with z have "countMarks (Element a (if activeBadge p then butlast cs0 else cs0)) = 0"
    using countMarks_butlast[of a cs0] by simp
  from countMarks_snoc_badge[OF this] Element show ?thesis
    by (simp add: showBadge_def del: countMarks.simps)
qed

lemma scan_activeBadge:
  assumes s: "scanPageForVocab vocabList p = Some (n, p1)"
  shows "activeBadge p1 = (n > 0 \<or> activeBadge p)"
  using s
proof (cases rule: scanPageForVocab_cases)
  case (body a cs cs')
  then show ?thesis by (simp add: page_update showBadge_Element)
qed simp_all

lemma scan_after_timeout:
  assumes s: "scanPageForVocab vocabList p = Some (n, p1)" and na: "\<not> activeBadge p"
  shows "textContent (body (badgeTimeout (p1\<lparr> body := removeHighlights (body p1) \<rparr>))) =
         textContent (body p)"
proof (cases "n > 0")
  case False
  with scan_activeBadge[OF s] na have "\<not> activeBadge p1" by simp
  then have "badgeTimeout (p1\<lparr> body := removeHighlights (body p1) \<rparr>) =
      p1\<lparr> body := removeHighlights (body p1) \<rparr>"
    by (simp add: badgeTimeout_def)
  moreover have "badgeInPlace p" using na by (simp add: badgeInPlace_def)
  ultimately show ?thesis
    using scan_textContent[OF s] False by (simp add: removeHighlights_textContent)
next
  case True
  from s show ?thesis
  proof (cases rule: scanPageForVocab_cases)
    case empty
    with True show ?thesis by simp
  next
    case (leaf t)
    with True show ?thesis by simp
  next
    case (body a cs cs')
    from highlight_unwrapAll(2)[OF body(3)] body(2) removeHighlights_textContent[of "body p"]
    have t: "concat (map textContent cs') = textContent (body p)" by simp
    from body(4) True na have p1: "body p1 = Element a (cs' @ [badge n])" "activeBadge p1"
      by (simp_all add: page_update showBadge_Element)
    obtain bb bt where bk: "badge n = Element bb bt" by (simp add: badge_def)
    have nm: "\<not> isMark (Element bb bt)" using badge_facts(1)[of n] unfolding bk .
    from removeHighlights_trailing[OF p1(1)[unfolded bk] nm] obtain cs2 b2 ds2 where
      r: "removeHighlights (body p1) = Element a (cs2 @ [Element b2 ds2])"
      and t2: "concat (map textContent cs2) = concat (map textContent cs')"
      by blast
    have "body (badgeTimeout (p1\<lparr> body := removeHighlights (body p1) \<rparr>)) = Element a cs2"
      using r p1(2) by (simp add: badgeTimeout_def)
    with t t2 show ?thesis by simp
  qed
qed

lemma scan_badge_text:
  assumes s: "scanPageForVocab vocabList p = Some (n, p1)" and n: "n > 0" and na: "\<not> activeBadge p"
  shows "textContent (body (showBadge n p)) = textContent (body p) @ badgeText n"
  using s
proof (cases rule: scanPageForVocab_cases)
  case (body a cs cs')
  from body(2) obtain cs0 where b: "body p = Element a cs0" by (rule body_of_Element)
  with na show ?thesis by (simp add: showBadge_def badge_facts(6))
qed (use n in simp_all)


lemma wrapMatches_diverges:
  assumes "wrapMatches alts vmap str i frag k = Some y"
  shows "regexExec alts str i \<noteq> Some (i, 0)"
proof (induction alts vmap str i frag k y rule: wrapMatches.raw_induct)
  case (1 w alts vmap str i frag k y)
  show ?case
  proof
    assume e: "regexExec alts str i = Some (i, 0)"
    with 1(2) obtain frag' where "w alts vmap str (i + 0) frag' (k + 1) = Some y"
      by auto
    from 1(1)[OF this] e show False by simp
  qed
qed fact

section \<open>The scan: claims C6 and C7\<close>

text \<open>
  Claim C7, as stated, fails whenever the scan finds a match: the scan then appends its
  badge to the body, and \<open>removeHighlights\<close> leaves the badge where it is. On this page
  the text content after scan and removal is the text content before the scan followed
  by the text of the badge.
\<close>

theorem scan_then_remove_counterexample:
  "scanPageForVocab [vocabEntry ''cat'' ''chat'']
     (loaded (plainElement ''BODY'' [plainElement ''P'' [Text (units ''the cat sat'')]])) =
   Some (1, \<lparr> body = plainElement ''BODY''
                 [plainElement ''P''
                    [Text (units ''the ''),
                     markNode (units ''cat'') (Some (vocabEntry ''cat'' ''chat'')),
                     Text (units '' sat'')],
                  badge 1],
               activeBadge = True \<rparr>) \<and>
   removeHighlights (plainElement ''BODY''
                 [plainElement ''P''
                    [Text (units ''the ''),
                     markNode (units ''cat'') (Some (vocabEntry ''cat'' ''chat'')),
                     Text (units '' sat'')],
                  badge 1]) =
     plainElement ''BODY'' [plainElement ''P'' [Text (units ''the cat sat'')], badge 1] \<and>
   textContent (plainElement ''BODY''
                  [plainElement ''P'' [Text (units ''the cat sat'')], badge 1]) =
     units ''the cat sat'' @ badgeText 1 \<and>
   textContent (plainElement ''BODY'' [plainElement ''P'' [Text (units ''the cat sat'')]]) =
     units ''the cat sat'' \<and>
   units ''the cat sat'' @ badgeText 1 \<noteq> units ''the cat sat''"
proof -
  have 1: "scanPageForVocab [vocabEntry ''cat'' ''chat'']
     (loaded (plainElement ''BODY'' [plainElement ''P'' [Text (units ''the cat sat'')]])) =
   Some (1, \<lparr> body = plainElement ''BODY''
                 [plainElement ''P''
                    [Text (units ''the ''),
                     markNode (units ''cat'') (Some (vocabEntry ''cat'' ''chat'')),
                     Text (units '' sat'')],
                  badge 1],
               activeBadge = True \<rparr>)"
    by code_simp
  have 2: "removeHighlights (plainElement ''BODY''
                 [plainElement ''P''
                    [Text (units ''the ''),
                     markNode (units ''cat'') (Some (vocabEntry ''cat'' ''chat'')),
                     Text (units '' sat'')],
                  badge 1]) =
     plainElement ''BODY'' [plainElement ''P'' [Text (units ''the cat sat'')], badge 1]"
    by code_simp
  have 3: "textContent (plainElement ''BODY''
                  [plainElement ''P'' [Text (units ''the cat sat'')], badge 1]) =
     units ''the cat sat'' @ badgeText 1"
    by (simp add: plainElement_def badge_facts(6))
  have 4: "textContent (plainElement ''BODY'' [plainElement ''P'' [Text (units ''the cat sat'')]]) =
     units ''the cat sat''"
    by (simp add: plainElement_def)
  have 5: "units ''the cat sat'' @ badgeText 1 \<noteq> units ''the cat sat''"
    by (simp add: badgeText_nonempty)
  show ?thesis by (rule conjI[OF 1 conjI[OF 2 conjI[OF 3 conjI[OF 4 5]]]])
qed

text \<open>
  Claim C7, amended. Take a state in which the active badge, if any, is in its place,
  and a scan of it that returns with count \<open>n\<close>. After \<open>removeHighlights\<close> the text content
  of the body is that of the body before the scan when \<open>n\<close> is 0, and otherwise that of
  the body before the scan with the badge for \<open>n\<close> shown: with no badge active before,
  it is the text content before the scan followed by the text of the badge, and once
  the timer has removed the badge it is the text content before the scan. No mark is
  left. When the body before the scan was normalized, the body is normalized again, and
  when it also had no mark, it is that very body, but for the badge: each fragment is
  merged back into the one text node it came from. The scan returns for every list
  without an empty word.
\<close>

theorem removeHighlights_after_scan:
  "badgeInPlace p \<Longrightarrow>
   (\<forall>n p1. scanPageForVocab vocabList p = Some (n, p1) \<longrightarrow>
      textContent (removeHighlights (body p1)) =
        textContent (body (if n > 0 then showBadge n p else p)) \<and>
      (n > 0 \<and> \<not> activeBadge p \<longrightarrow>
         textContent (removeHighlights (body p1)) = textContent (body p) @ badgeText n) \<and>
      (\<not> activeBadge p \<longrightarrow>
         textContent (body (badgeTimeout (p1\<lparr> body := removeHighlights (body p1) \<rparr>))) =
           textContent (body p)) \<and>
      countMarks (removeHighlights (body p1)) = 0 \<and>
      (isNormalized (body p) \<longrightarrow> isNormalized (removeHighlights (body p1))) \<and>
      (isNormalized (body p) \<and> countMarks (body p) = 0 \<longrightarrow>
         removeHighlights (body p1) = body (if n > 0 then showBadge n p else p))) \<and>
   ((\<forall>e \<in> set vocabList. word e \<noteq> []) \<longrightarrow>
      (\<exists>n p1. scanPageForVocab vocabList p = Some (n, p1)))"
proof (intro conjI allI impI)
  fix n p1
  assume bp: "badgeInPlace p" and s: "scanPageForVocab vocabList p = Some (n, p1)"
  show t: "textContent (removeHighlights (body p1)) =
      textContent (body (if n > 0 then showBadge n p else p))"
    using scan_textContent[OF s bp] by (simp add: removeHighlights_textContent)
  show "textContent (removeHighlights (body p1)) = textContent (body p) @ badgeText n"
    if "n > 0 \<and> \<not> activeBadge p"
    using t scan_badge_text[OF s] that by simp
  show "textContent (body (badgeTimeout (p1\<lparr> body := removeHighlights (body p1) \<rparr>))) =
      textContent (body p)" if "\<not> activeBadge p"
    using scan_after_timeout[OF s that] .
  show "countMarks (removeHighlights (body p1)) = 0" by (rule removeHighlights_countMarks)
  show "isNormalized (removeHighlights (body p1))" if nb: "isNormalized (body p)"
  proof -
    have "isNormalized (body (if n > 0 then showBadge n p else p))"
      using nb showBadge_normalized[OF nb bp] by simp
    from removeHighlights_normalized[OF this] removeHighlights_scanned[OF s nb bp]
    show ?thesis by simp
  qed
  show "removeHighlights (body p1) = body (if n > 0 then showBadge n p else p)"
    if "isNormalized (body p) \<and> countMarks (body p) = 0"
  proof -
    from that have nb: "isNormalized (body p)" and z: "countMarks (body p) = 0" by simp_all
    have "countMarks (body (if n > 0 then showBadge n p else p)) = 0"
      using z showBadge_countMarks[OF z] by simp
    from removeHighlights_no_marks[OF this] removeHighlights_scanned[OF s nb bp]
    show ?thesis by simp
  qed
next
  assume "\<forall>e \<in> set vocabList. word e \<noteq> []"
  then show "\<exists>n p1. scanPageForVocab vocabList p = Some (n, p1)"
    by (rule scanPageForVocab_returns)
qed

theorem removeHighlights_after_scan_witness:
  "badgeInPlace (loaded (plainElement ''BODY'' [plainElement ''P''
        [Text (units ''The cat and the ''), plainElement ''B'' [Text (units ''CAT'')],
         Text (units ''.'')]])) \<and>
   word (vocabEntry ''cat'' ''chat'') \<noteq> [] \<and>
   scanPageForVocab [vocabEntry ''cat'' ''chat'']
     (loaded (plainElement ''BODY'' [plainElement ''P''
        [Text (units ''The cat and the ''), plainElement ''B'' [Text (units ''CAT'')],
         Text (units ''.'')]])) =
   Some (2, \<lparr> body = plainElement ''BODY'' [plainElement ''P''
        [Text (units ''The ''), markNode (units ''cat'') (Some (vocabEntry ''cat'' ''chat'')),
         Text (units '' and the ''),
         plainElement ''B'' [markNode (units ''CAT'') (Some (vocabEntry ''cat'' ''chat''))],
         Text (units ''.'')], badge 2], activeBadge = True \<rparr>) \<and>
   isNormalized (plainElement ''BODY'' [plainElement ''P''
        [Text (units ''The cat and the ''), plainElement ''B'' [Text (units ''CAT'')],
         Text (units ''.'')]]) \<and>
   countMarks (plainElement ''BODY'' [plainElement ''P''
        [Text (units ''The cat and the ''), plainElement ''B'' [Text (units ''CAT'')],
         Text (units ''.'')]]) = 0 \<and>
   removeHighlights (plainElement ''BODY'' [plainElement ''P''
        [Text (units ''The ''), markNode (units ''cat'') (Some (vocabEntry ''cat'' ''chat'')),
         Text (units '' and the ''),
         plainElement ''B'' [markNode (units ''CAT'') (Some (vocabEntry ''cat'' ''chat''))],
         Text (units ''.'')], badge 2]) =
     plainElement ''BODY'' [plainElement ''P''
        [Text (units ''The cat and the ''), plainElement ''B'' [Text (units ''CAT'')],
         Text (units ''.'')], badge 2] \<and>
   textContent (removeHighlights (plainElement ''BODY'' [plainElement ''P''
        [Text (units ''The ''), markNode (units ''cat'') (Some (vocabEntry ''cat'' ''chat'')),
         Text (units '' and the ''),
         plainElement ''B'' [markNode (units ''CAT'') (Some (vocabEntry ''cat'' ''chat''))],
         Text (units ''.'')], badge 2])) =
     units ''The cat and the CAT.'' @ badgeText 2"
proof -
  let ?b = "plainElement ''BODY'' [plainElement ''P''
        [Text (units ''The cat and the ''), plainElement ''B'' [Text (units ''CAT'')],
         Text (units ''.'')]]"
  let ?b1 = "plainElement ''BODY'' [plainElement ''P''
        [Text (units ''The ''), markNode (units ''cat'') (Some (vocabEntry ''cat'' ''chat'')),
         Text (units '' and the ''),
         plainElement ''B'' [markNode (units ''CAT'') (Some (vocabEntry ''cat'' ''chat''))],
         Text (units ''.'')], badge 2]"
  have bp: "badgeInPlace (loaded ?b)" by (simp add: badgeInPlace_def loaded_def)
  have w: "word (vocabEntry ''cat'' ''chat'') \<noteq> []" by (simp add: vocabEntry_def)
  have s: "scanPageForVocab [vocabEntry ''cat'' ''chat''] (loaded ?b) =
      Some (2, \<lparr> body = ?b1, activeBadge = True \<rparr>)" by code_simp
  have n: "isNormalized ?b \<and> countMarks ?b = 0"
    by (simp add: plainElement_def isNormalizedList_def units_def)
  have t: "textContent ?b = units ''The cat and the CAT.''"
    by (simp add: plainElement_def units_def)
  note T = removeHighlights_after_scan[OF bp, of "[vocabEntry ''cat'' ''chat'']",
      THEN conjunct1, THEN spec, THEN spec, THEN mp, OF s]
  from T have "0 < (2::nat) \<and> \<not> activeBadge (loaded ?b) \<longrightarrow>
      textContent (removeHighlights (body \<lparr> body = ?b1, activeBadge = True \<rparr>)) =
      textContent (body (loaded ?b)) @ badgeText 2" by blast
  then have x: "textContent (removeHighlights ?b1) = units ''The cat and the CAT.'' @ badgeText 2"
    using t by (simp add: loaded_def)
  from T have "isNormalized (body (loaded ?b)) \<and> countMarks (body (loaded ?b)) = 0 \<longrightarrow>
      removeHighlights (body \<lparr> body = ?b1, activeBadge = True \<rparr>) =
      body (if 0 < (2::nat) then showBadge 2 (loaded ?b) else loaded ?b)" by blast
  with n have "removeHighlights ?b1 = body (showBadge 2 (loaded ?b))"
    by (simp add: loaded_def)
  then have y: "removeHighlights ?b1 = plainElement ''BODY'' [plainElement ''P''
        [Text (units ''The cat and the ''), plainElement ''B'' [Text (units ''CAT'')],
         Text (units ''.'')], badge 2]"
    by (simp add: loaded_def showBadge_def plainElement_def)
  from bp w s n x y show ?thesis by simp
qed


text \<open>
  Claim C6, as stated, fails in three ways. On a page with adjacent text nodes the first
  scan finds one match in "the cat " and none in the text nodes "ca" and "t" beside it;
  the second scan first removes the mark and normalizes its parent, which merges the
  three text nodes into "the cat cat", and then finds two matches. With a word that is a
  decimal number, here "1", the first scan finds one match and shows the badge with the
  count 1; the second scan also finds the "1" of the badge, and so counts 2. And with
  an empty word in the list the scan of a text with a word in it does not come to an
  end.
\<close>

theorem scan_twice_counterexample:
  "scanPageForVocab [vocabEntry ''cat'' ''chat'']
     (loaded (plainElement ''BODY''
        [plainElement ''P'' [Text (units ''the cat ''), Text (units ''ca''), Text (units ''t'')]])) =
   Some (1, \<lparr> body = plainElement ''BODY'' [plainElement ''P''
     [Text (units ''the ''), markNode (units ''cat'') (Some (vocabEntry ''cat'' ''chat'')),
      Text (units '' ''), Text (units ''ca''), Text (units ''t'')], badge 1],
     activeBadge = True \<rparr>) \<and>
   scanPageForVocab [vocabEntry ''cat'' ''chat'']
     \<lparr> body = plainElement ''BODY'' [plainElement ''P''
     [Text (units ''the ''), markNode (units ''cat'') (Some (vocabEntry ''cat'' ''chat'')),
      Text (units '' ''), Text (units ''ca''), Text (units ''t'')], badge 1],
     activeBadge = True \<rparr> =
   Some (2, \<lparr> body = plainElement ''BODY'' [plainElement ''P''
     [Text (units ''the ''), markNode (units ''cat'') (Some (vocabEntry ''cat'' ''chat'')),
      Text (units '' ''), markNode (units ''cat'') (Some (vocabEntry ''cat'' ''chat''))], badge 2],
     activeBadge = True \<rparr>) \<and>
   scanPageForVocab [vocabEntry ''1'' ''un'']
     (loaded (plainElement ''BODY'' [plainElement ''P'' [Text (units ''page 1'')]])) =
   Some (1, \<lparr> body = plainElement ''BODY'' [plainElement ''P''
     [Text (units ''page ''), markNode (units ''1'') (Some (vocabEntry ''1'' ''un''))], badge 1],
     activeBadge = True \<rparr>) \<and>
   scanPageForVocab [vocabEntry ''1'' ''un'']
     \<lparr> body = plainElement ''BODY'' [plainElement ''P''
     [Text (units ''page ''), markNode (units ''1'') (Some (vocabEntry ''1'' ''un''))], badge 1],
     activeBadge = True \<rparr> =
   Some (2, \<lparr> body = plainElement ''BODY'' [plainElement ''P''
     [Text (units ''page ''), markNode (units ''1'') (Some (vocabEntry ''1'' ''un''))], badge 2],
     activeBadge = True \<rparr>) \<and>
   scanPageForVocab [vocabEntry '''' ''rien'']
     (loaded (plainElement ''BODY'' [plainElement ''P'' [Text (units ''cat'')]])) = None"
proof -
  have 1: "scanPageForVocab [vocabEntry ''cat'' ''chat'']
     (loaded (plainElement ''BODY''
        [plainElement ''P'' [Text (units ''the cat ''), Text (units ''ca''), Text (units ''t'')]])) =
   Some (1, \<lparr> body = plainElement ''BODY'' [plainElement ''P''
     [Text (units ''the ''), markNode (units ''cat'') (Some (vocabEntry ''cat'' ''chat'')),
      Text (units '' ''), Text (units ''ca''), Text (units ''t'')], badge 1],
     activeBadge = True \<rparr>)"
    by code_simp
  have 2: "scanPageForVocab [vocabEntry ''cat'' ''chat'']
     \<lparr> body = plainElement ''BODY'' [plainElement ''P''
     [Text (units ''the ''), markNode (units ''cat'') (Some (vocabEntry ''cat'' ''chat'')),
      Text (units '' ''), Text (units ''ca''), Text (units ''t'')], badge 1],
     activeBadge = True \<rparr> =
   Some (2, \<lparr> body = plainElement ''BODY'' [plainElement ''P''
     [Text (units ''the ''), markNode (units ''cat'') (Some (vocabEntry ''cat'' ''chat'')),
      Text (units '' ''), markNode (units ''cat'') (Some (vocabEntry ''cat'' ''chat''))], badge 2],
     activeBadge = True \<rparr>)"
    by code_simp
  have 3: "scanPageForVocab [vocabEntry ''1'' ''un'']
     (loaded (plainElement ''BODY'' [plainElement ''P'' [Text (units ''page 1'')]])) =
   Some (1, \<lparr> body = plainElement ''BODY'' [plainElement ''P''
     [Text (units ''page ''), markNode (units ''1'') (Some (vocabEntry ''1'' ''un''))], badge 1],
     activeBadge = True \<rparr>)"
    by code_simp
  have 4: "scanPageForVocab [vocabEntry ''1'' ''un'']
     \<lparr> body = plainElement ''BODY'' [plainElement ''P''
     [Text (units ''page ''), markNode (units ''1'') (Some (vocabEntry ''1'' ''un''))], badge 1],
     activeBadge = True \<rparr> =
   Some (2, \<lparr> body = plainElement ''BODY'' [plainElement ''P''
     [Text (units ''page ''), markNode (units ''1'') (Some (vocabEntry ''1'' ''un''))], badge 2],
     activeBadge = True \<rparr>)"
    by code_simp
  have 5: "scanPageForVocab [vocabEntry '''' ''rien'']
     (loaded (plainElement ''BODY'' [plainElement ''P'' [Text (units ''cat'')]])) = None"
  proof -
    let ?b = "plainElement ''BODY'' [plainElement ''P'' [Text (units ''cat'')]]"
    let ?ba = "\<lparr> tagName = ''BODY'', ident = [], classList = [], contentEditable = None,
          vhTranslation = None, vhWord = None \<rparr>"
    let ?pa = "\<lparr> tagName = ''P'', ident = [], classList = [], contentEditable = None,
          vhTranslation = None, vhWord = None \<rparr>"
    let ?vmap = "vocabMap [vocabEntry '''' ''rien'']"
    have e: "regexExec [''''] (units ''cat'') 0 = Some (0, 0)" by code_simp
    have w: "wrapMatches [''''] ?vmap (units ''cat'') 0 [] 0 = None"
    proof (cases "wrapMatches [''''] ?vmap (units ''cat'') 0 [] 0")
      case (Some y)
      from wrapMatches_diverges[OF Some] e show ?thesis by simp
    qed simp
    have ne: "[vocabEntry '''' ''rien''] \<noteq> []" by simp
    have d: "removeHighlights (body (loaded ?b)) = Element ?ba [Element ?pa [Text (units ''cat'')]]"
      by (simp add: loaded_def removeHighlights_no_marks plainElement_def)
    have acc: "acceptNode (enter \<lparr> inRoot = False, editable = False \<rparr> ?ba) ?pa"
      by (simp add: acceptNode_def enter_def SKIP_ELEMENTS_def closestRoot_def
          isContentEditable_def)
    have "units ''cat'' \<noteq> []" by (simp add: units_def)
    with acc e w have "highlightNode [''''] ?vmap (enter \<lparr> inRoot = False, editable = False \<rparr> ?ba)
        ?pa (Text (units ''cat'')) = None"
      by simp
    then have "highlightChildren (map word [vocabEntry '''' ''rien'']) ?vmap
        \<lparr> inRoot = False, editable = False \<rparr> ?ba [Element ?pa [Text (units ''cat'')]] = None"
      by (simp add: vocabEntry_def)
    then show ?thesis unfolding scanPageForVocab_body[OF ne d] by simp
  qed
  show ?thesis by (rule conjI[OF 1 conjI[OF 2 conjI[OF 3 conjI[OF 4 5]]]])
qed

text \<open>
  Claim C6, amended. Take a state whose body is normalized (no empty text node, no two
  adjacent text nodes) and in which the active badge, if any, is in its place, and a
  list without an empty word and without a word that is a decimal number. Then a scan
  returns a count and a state on which a second scan returns the same count and the
  same state, whether it runs while the badge of the first is still shown or after the
  timer has removed it (a scan without a match shows no badge, and then the state stays
  as the timer left it); no mark of that state has a mark inside it; and its active
  badge, if any, is in its place again.
\<close>

theorem scan_idempotent:
  "isNormalized (body p) \<Longrightarrow> badgeInPlace p \<Longrightarrow>
   \<forall>e \<in> set vocabList. word e \<noteq> [] \<and> \<not> isDecimal (word e) \<Longrightarrow>
     \<exists>n p1. scanPageForVocab vocabList p = Some (n, p1) \<and>
            scanPageForVocab vocabList p1 = Some (n, p1) \<and>
            scanPageForVocab vocabList (badgeTimeout p1) =
              Some (n, if n > 0 then p1 else badgeTimeout p1) \<and>
            \<not> nestedMarks (body p1) \<and> badgeInPlace p1"
proof -
  assume nb: "isNormalized (body p)" and bp: "badgeInPlace p"
    and w: "\<forall>e \<in> set vocabList. word e \<noteq> [] \<and> \<not> isDecimal (word e)"
  show ?thesis
  proof (cases "body p")
    case (Text t)
    then have p: "p\<lparr> body := Text t \<rparr> = p" by (cases p) simp
    from Text bp have na: "\<not> activeBadge p" by (auto simp: badgeInPlace_def)
    have 1: "scanPageForVocab vocabList p = Some (0, p)"
      using scanPageForVocab_leaf[of p t vocabList] Text p
      by (simp add: removeHighlights_Text)
    have 3: "scanPageForVocab vocabList (badgeTimeout p) =
        Some (0, if (0::nat) > 0 then p else badgeTimeout p)"
      using 1 na by (simp add: badgeTimeout_def)
    have 4: "\<not> nestedMarks (body p)" using Text by simp
    from 1 3 4 bp show ?thesis by blast
  next
    case (Element a cs0)
    from nb bp Element obtain cs rear where
      d: "removeHighlights (body p) = Element a (cs @ rear)"
      and r: "rear = [] \<and> \<not> activeBadge p \<or> (\<exists>k. rear = [badge k]) \<and> activeBadge p"
      and l: "isNormalizedList cs"
      and c: "\<forall>c \<in> set cs. isNormalized c \<and> \<not> isMark c \<and> countMarks c = 0"
      by (rule scan_normalized)
    show ?thesis
    proof (cases "vocabList = []")
      case True
      define p1 where "p1 = \<lparr> body = Element a (cs @ rear), activeBadge = (rear \<noteq> []) \<rparr>"
      have e: "p\<lparr> body := removeHighlights (body p) \<rparr> = p1"
        using r unfolding d p1_def by (auto simp: page_update)
      have z: "countMarks (body p1) = 0"
        using removeHighlights_countMarks[of "body p"] unfolding d p1_def by simp
      have 1: "scanPageForVocab vocabList p = Some (0, p1)"
        unfolding True scanPageForVocab_empty e ..
      have 2: "scanPageForVocab vocabList p1 = Some (0, p1)"
        unfolding True scanPageForVocab_empty using removeHighlights_no_marks[OF z]
        by (simp add: p1_def)
      have "removeHighlights (body (badgeTimeout p1)) = body (badgeTimeout p1)"
        by (rule removeHighlights_no_marks[OF countMarks_badgeTimeout[OF z]])
      then have 3: "scanPageForVocab vocabList (badgeTimeout p1) =
          Some (0, if (0::nat) > 0 then p1 else badgeTimeout p1)"
        unfolding True scanPageForVocab_empty by simp
      have 4: "\<not> nestedMarks (body p1)" by (rule countMarks_not_nested[OF z])
      have 5: "badgeInPlace p1" using r by (auto simp: badgeInPlace_def p1_def)
      from 1 2 3 4 5 show ?thesis by blast
    next
      case ne: False
      from w have "\<forall>a \<in> set (map word vocabList). a \<noteq> []" by simp
      from highlight_returns(2)[OF this] obtain cs' n where
        h: "highlightChildren (map word vocabList) (vocabMap vocabList)
              \<lparr> inRoot = False, editable = False \<rparr> a cs = Some (cs', n)"
        by (metis surj_pair)
      define rear1 where "rear1 = (if n > 0 then [badge n] else rear)"
      define p1 where "p1 = \<lparr> body = Element a (cs' @ rear1), activeBadge = (rear1 \<noteq> []) \<rparr>"
      have t1: "rear1 = [] \<or> (\<exists>j. rear1 = [badge j])" using r by (auto simp: rear1_def)
      have 1: "scanPageForVocab vocabList p = Some (n, p1)"
        unfolding p1_def rear1_def by (rule scan_first[OF d r h w ne])
      have again: "scanPageForVocab vocabList
            \<lparr> body = Element a (cs' @ x), activeBadge = (x \<noteq> []) \<rparr> =
          Some (n, if n > 0 then \<lparr> body = Element a (cs' @ [badge n]), activeBadge = True \<rparr>
                   else \<lparr> body = Element a (cs' @ x), activeBadge = (x \<noteq> []) \<rparr>)"
        if "x = [] \<or> (\<exists>j. x = [badge j])" for x
        using that scan_again[OF l c h _ w ne, of x] by blast
      have p1n: "p1 = \<lparr> body = Element a (cs' @ [badge n]), activeBadge = True \<rparr>" if "n > 0"
        using that by (simp add: p1_def rear1_def)
      have 2: "scanPageForVocab vocabList p1 = Some (n, p1)"
        using again[OF t1] p1n unfolding p1_def[symmetric] by auto
      have bt: "badgeTimeout p1 =
          \<lparr> body = Element a (cs' @ []), activeBadge = ([] \<noteq> ([] :: node list)) \<rparr>"
        using t1 by (auto simp: badgeTimeout_def p1_def)
      have 3: "scanPageForVocab vocabList (badgeTimeout p1) =
          Some (n, if n > 0 then p1 else badgeTimeout p1)"
        using again[of "[]"] p1n unfolding bt by auto
      have "\<forall>c \<in> set cs. \<not> isMark c \<and> countMarks c = 0" using c by blast
      from highlight_not_nested(2)[OF this h]
      have "\<forall>x \<in> set cs'. \<not> nestedMarks x \<and> (isMark x \<longrightarrow> countMarks x = 0)" .
      moreover have "\<forall>x \<in> set rear1. \<not> nestedMarks x \<and> \<not> isMark x"
        using t1 badge_facts(1,5) by auto
      ultimately have 4: "\<not> nestedMarks (body p1)" by (auto simp: p1_def)
      have 5: "badgeInPlace p1" using t1 by (auto simp: badgeInPlace_def p1_def)
      from 1 2 3 4 5 show ?thesis by blast
    qed
  qed
qed

theorem scan_idempotent_witness:
  "isNormalized (body (loaded (plainElement ''BODY''
      [plainElement ''P'' [Text (units ''category the cat sat'')]]))) \<and>
   badgeInPlace (loaded (plainElement ''BODY''
      [plainElement ''P'' [Text (units ''category the cat sat'')]])) \<and>
   word (vocabEntry ''cat'' ''chat'') \<noteq> [] \<and> \<not> isDecimal (word (vocabEntry ''cat'' ''chat'')) \<and>
   scanPageForVocab [vocabEntry ''cat'' ''chat'']
     (loaded (plainElement ''BODY'' [plainElement ''P'' [Text (units ''category the cat sat'')]])) =
   Some (1, \<lparr> body = plainElement ''BODY'' [plainElement ''P''
     [Text (units ''category the ''), markNode (units ''cat'') (Some (vocabEntry ''cat'' ''chat'')),
      Text (units '' sat'')], badge 1], activeBadge = True \<rparr>) \<and>
   scanPageForVocab [vocabEntry ''cat'' ''chat'']
     \<lparr> body = plainElement ''BODY'' [plainElement ''P''
     [Text (units ''category the ''), markNode (units ''cat'') (Some (vocabEntry ''cat'' ''chat'')),
      Text (units '' sat'')], badge 1], activeBadge = True \<rparr> =
   Some (1, \<lparr> body = plainElement ''BODY'' [plainElement ''P''
     [Text (units ''category the ''), markNode (units ''cat'') (Some (vocabEntry ''cat'' ''chat'')),
      Text (units '' sat'')], badge 1], activeBadge = True \<rparr>)"
proof -
  let ?p = "loaded (plainElement ''BODY'' [plainElement ''P'' [Text (units ''category the cat sat'')]])"
  let ?p1 = "\<lparr> body = plainElement ''BODY'' [plainElement ''P''
     [Text (units ''category the ''), markNode (units ''cat'') (Some (vocabEntry ''cat'' ''chat'')),
      Text (units '' sat'')], badge 1], activeBadge = True \<rparr>"
  have n: "isNormalized (body ?p)"
    by (simp add: loaded_def plainElement_def isNormalizedList_def units_def)
  have bp: "badgeInPlace ?p" by (simp add: badgeInPlace_def loaded_def)
  have w: "word (vocabEntry ''cat'' ''chat'') \<noteq> [] \<and> \<not> isDecimal (word (vocabEntry ''cat'' ''chat''))"
    by (simp add: vocabEntry_def isDecimal_def)
  then have w': "\<forall>e \<in> set [vocabEntry ''cat'' ''chat'']. word e \<noteq> [] \<and> \<not> isDecimal (word e)"
    by simp
  have s: "scanPageForVocab [vocabEntry ''cat'' ''chat''] ?p = Some (1, ?p1)" by code_simp
  from scan_idempotent[OF n bp w'] obtain k p1 where
    "scanPageForVocab [vocabEntry ''cat'' ''chat''] ?p = Some (k, p1)"
    "scanPageForVocab [vocabEntry ''cat'' ''chat''] p1 = Some (k, p1)" by blast
  with s have "scanPageForVocab [vocabEntry ''cat'' ''chat''] ?p1 = Some (1, ?p1)" by simp
  with n bp w s show ?thesis by simp
qed

section \<open>What the scan marks: claim C8\<close>


















section \<open>The write queue: claims C1 and C9\<close>

subsection \<open>The invariant of the queue\<close>

lemma serialI:
  assumes "\<forall>t \<in> set (tasks s). onFulfilled t = Call \<and> onRejected t = Call"
    and "tasks s = finished @ waiting"
    and "\<forall>t \<in> set finished. settled (phase t) \<and> called t"
    and "waiting \<noteq> [] \<longrightarrow> underWay (storage s) (hd waiting)"
    and "\<forall>t \<in> set (tl waiting). phase t = Queued"
    and "storage s = applied start finished"
  shows "serial start s"
  unfolding serial_def using assms by blast

lemma serialE:
  assumes "serial start s"
  obtains finished waiting where
    "\<forall>t \<in> set (tasks s). onFulfilled t = Call \<and> onRejected t = Call"
    "tasks s = finished @ waiting"
    "\<forall>t \<in> set finished. settled (phase t) \<and> called t"
    "waiting \<noteq> [] \<longrightarrow> underWay (storage s) (hd waiting)"
    "\<forall>t \<in> set (tl waiting). phase t = Queued"
    "storage s = applied start finished"
  using assms unfolding serial_def by blast

lemma underWay_not_settled: "underWay st t \<Longrightarrow> \<not> settled (phase t)"
  by (auto simp: underWay_def settled_def split: phase.splits)

text \<open>Only the first waiting task can be anything but queued or settled.\<close>

lemma active_index:
  assumes ts: "ts = finished @ waiting"
    and fin: "\<forall>t \<in> set finished. settled (phase t) \<and> called t"
    and rest: "\<forall>t \<in> set (tl waiting). phase t = Queued"
    and i: "i < length ts" and p: "\<not> settled (phase (ts ! i))" "phase (ts ! i) \<noteq> Queued"
  shows "\<exists>t later. waiting = t # later \<and> i = length finished \<and> ts ! i = t"
proof -
  have ge: "length finished \<le> i"
  proof (rule ccontr)
    assume "\<not> length finished \<le> i"
    then have "ts ! i \<in> set finished" unfolding ts by (simp add: nth_append)
    with fin p show False by blast
  qed
  with i ts obtain t later where w: "waiting = t # later" by (cases waiting) auto
  have "i = length finished"
  proof (rule ccontr)
    assume "i \<noteq> length finished"
    with ge have j: "0 < i - length finished" "i - length finished - 1 < length later"
      using i unfolding ts w by simp_all
    have "ts ! i = (t # later) ! (i - length finished)"
      using ge unfolding ts w by (simp add: nth_append)
    also have "\<dots> = later ! (i - length finished - 1)"
      using j(1) by (simp add: nth_Cons')
    finally have "ts ! i \<in> set later" using j(2) by simp
    with rest w p show False by simp
  qed
  with w ts show ?thesis by simp
qed

text \<open>A queued task whose predecessor has settled is the first waiting one.\<close>

lemma react_index:
  assumes ts: "ts = finished @ waiting"
    and fin: "\<forall>t \<in> set finished. settled (phase t) \<and> called t"
    and hd: "waiting \<noteq> [] \<longrightarrow> underWay st (hd waiting)"
    and rest: "\<forall>t \<in> set (tl waiting). phase t = Queued"
    and i: "i < length ts" and q: "phase (ts ! i) = Queued"
    and c: "chainedOn ts i = Some outcome"
  shows "\<exists>t later. waiting = t # later \<and> i = length finished \<and> ts ! i = t"
proof -
  have ge: "length finished \<le> i"
  proof (rule ccontr)
    assume "\<not> length finished \<le> i"
    then have "ts ! i \<in> set finished" unfolding ts by (simp add: nth_append)
    with fin q show False by (auto simp: settled_def)
  qed
  with i ts obtain t later where w: "waiting = t # later" by (cases waiting) auto
  have "i = length finished"
  proof (rule ccontr)
    assume ne: "i \<noteq> length finished"
    with ge have pos: "i \<noteq> 0" "length finished \<le> i - 1" by simp_all
    with c have s: "settled (phase (ts ! (i - 1)))"
      by (auto simp: chainedOn_def split: if_splits)
    show False
    proof (cases "i - 1 = length finished")
      case True
      then have "ts ! (i - 1) = t" unfolding ts w by simp
      with hd w underWay_not_settled[of st t] s show False by simp
    next
      case False
      with pos have j: "0 < i - 1 - length finished" "i - 1 - length finished - 1 < length later"
        using i unfolding ts w by simp_all
      have "ts ! (i - 1) = (t # later) ! (i - 1 - length finished)"
        using pos unfolding ts w by (simp add: nth_append)
      also have "\<dots> = later ! (i - 1 - length finished - 1)"
        using j(1) by (simp add: nth_Cons')
      finally have "ts ! (i - 1) \<in> set later" using j(2) by simp
      with rest w s show False by (auto simp: settled_def)
    qed
  qed
  with w ts show ?thesis by simp
qed

lemma chainedOn_first_waiting:
  assumes fin: "\<forall>t \<in> set finished. settled (phase t) \<and> called t"
  shows "\<exists>outcome. chainedOn (finished @ waiting) (length finished) = Some outcome \<and> settled outcome"
proof (cases "finished = []")
  case True
  then show ?thesis by (simp add: chainedOn_def settled_def)
next
  case False
  then have "(finished @ waiting) ! (length finished - 1) = last finished"
    by (simp add: nth_append last_conv_nth)
  moreover from False fin have "settled (phase (last finished))" by simp
  ultimately show ?thesis using False by (simp add: chainedOn_def)
qed

lemma serial_initial: "serial start (initial start)"
  by (rule serialI[of _ "[]" "[]"]) (simp_all add: initial_def)

lemma serial_submit: "serial start s \<Longrightarrow> serial start (serializedWrite f s)"
proof -
  assume "serial start s"
  then obtain finished waiting where
    h: "\<forall>t \<in> set (tasks s). onFulfilled t = Call \<and> onRejected t = Call"
    and ts: "tasks s = finished @ waiting"
    and fin: "\<forall>t \<in> set finished. settled (phase t) \<and> called t"
    and hd: "waiting \<noteq> [] \<longrightarrow> underWay (storage s) (hd waiting)"
    and rest: "\<forall>t \<in> set (tl waiting). phase t = Queued"
    and st: "storage s = applied start finished"
    by (rule serialE)
  let ?new = "\<lparr> fn = f, onFulfilled = Call, onRejected = Call, phase = Queued, called = False \<rparr>"
  show ?thesis
  proof (rule serialI[of _ finished "waiting @ [?new]"])
    show "\<forall>t \<in> set (tasks (serializedWrite f s)). onFulfilled t = Call \<and> onRejected t = Call"
      using h by (simp add: serializedWrite_def)
    show "tasks (serializedWrite f s) = finished @ waiting @ [?new]"
      using ts by (simp add: serializedWrite_def)
    show "\<forall>t \<in> set finished. settled (phase t) \<and> called t" by (rule fin)
    show "waiting @ [?new] \<noteq> [] \<longrightarrow> underWay (storage (serializedWrite f s)) (hd (waiting @ [?new]))"
      using hd by (cases waiting) (simp_all add: serializedWrite_def underWay_def)
    show "\<forall>t \<in> set (tl (waiting @ [?new])). phase t = Queued"
      using rest by (cases waiting) simp_all
    show "storage (serializedWrite f s) = applied start finished"
      using st by (simp add: serializedWrite_def)
  qed
qed

text \<open>The first waiting task moves on without settling.\<close>

lemma serial_advance:
  assumes h: "\<forall>x \<in> set (tasks s). onFulfilled x = Call \<and> onRejected x = Call"
    and ts: "tasks s = finished @ t # later"
    and fin: "\<forall>x \<in> set finished. settled (phase x) \<and> called x"
    and rest: "\<forall>x \<in> set later. phase x = Queued"
    and st: "storage s = applied start finished"
    and t': "onFulfilled t' = Call" "onRejected t' = Call" "underWay (storage s) t'"
  shows "serial start (s\<lparr> tasks := (tasks s)[length finished := t'] \<rparr>)"
proof (rule serialI[of _ finished "t' # later"])
  show "\<forall>x \<in> set (tasks (s\<lparr> tasks := (tasks s)[length finished := t'] \<rparr>)).
      onFulfilled x = Call \<and> onRejected x = Call"
    using h t' unfolding ts by auto
  show "tasks (s\<lparr> tasks := (tasks s)[length finished := t'] \<rparr>) = finished @ t' # later"
    unfolding ts by simp
qed (use fin rest st t' in simp_all)

text \<open>The first waiting task settles.\<close>

lemma serial_settle:
  assumes h: "\<forall>x \<in> set (tasks s). onFulfilled x = Call \<and> onRejected x = Call"
    and ts: "tasks s = finished @ t # later"
    and fin: "\<forall>x \<in> set finished. settled (phase x) \<and> called x"
    and rest: "\<forall>x \<in> set later. phase x = Queued"
    and t': "onFulfilled t' = Call" "onRejected t' = Call" "settled (phase t')" "called t'"
    and st: "stored = applied start (finished @ [t'])"
  shows "serial start (s\<lparr> storage := stored, tasks := (tasks s)[length finished := t'] \<rparr>)"
proof (rule serialI[of _ "finished @ [t']" later])
  show "\<forall>x \<in> set (tasks (s\<lparr> storage := stored, tasks := (tasks s)[length finished := t'] \<rparr>)).
      onFulfilled x = Call \<and> onRejected x = Call"
    using h t' unfolding ts by auto
  show "tasks (s\<lparr> storage := stored, tasks := (tasks s)[length finished := t'] \<rparr>) =
      (finished @ [t']) @ later"
    unfolding ts by simp
  show "later \<noteq> [] \<longrightarrow>
      underWay (storage (s\<lparr> storage := stored, tasks := (tasks s)[length finished := t'] \<rparr>)) (hd later)"
    using rest by (cases later) (simp_all add: underWay_def)
  show "\<forall>x \<in> set (tl later). phase x = Queued"
    using rest by (cases later) simp_all
qed (use fin t' st in simp_all)

lemma fire_serial:
  assumes inv: "serial start s" and f: "fire e s = Some s'"
  shows "serial start s'"
proof -
  from inv obtain finished waiting where
    h: "\<forall>t \<in> set (tasks s). onFulfilled t = Call \<and> onRejected t = Call"
    and ts: "tasks s = finished @ waiting"
    and fin: "\<forall>t \<in> set finished. settled (phase t) \<and> called t"
    and hd: "waiting \<noteq> [] \<longrightarrow> underWay (storage s) (hd waiting)"
    and rest: "\<forall>t \<in> set (tl waiting). phase t = Queued"
    and st: "storage s = applied start finished"
    by (rule serialE)
  show ?thesis
  proof (cases e)
    case (Submit m)
    with f serial_submit[OF inv, of m] show ?thesis by simp
  next
    case (React i)
    with f have i: "i < length (tasks s)" and q: "phase (tasks s ! i) = Queued"
      by (simp_all split: if_splits)
    with f React obtain outcome where c: "chainedOn (tasks s) i = Some outcome"
      and s': "s' = s\<lparr> tasks := (tasks s)[i := react outcome (tasks s ! i)] \<rparr>"
      by (auto split: option.splits)
    from react_index[OF ts fin hd rest i q c] obtain t later where
      w: "waiting = t # later" and k: "i = length finished" and t: "tasks s ! i = t" by blast
    from h ts w have ht: "onFulfilled t = Call" "onRejected t = Call" by simp_all
    then have r: "react outcome t = t\<lparr> phase := Reading, called := True \<rparr>"
      by (simp add: react_def)
    have "serial start (s\<lparr> tasks := (tasks s)[length finished := react outcome t] \<rparr>)"
      using h ts[unfolded w] fin rest[unfolded w list.sel] st
      by (rule serial_advance) (simp_all add: r ht underWay_def)
    then show ?thesis using t unfolding s' k by simp
  next
    case (ReadDone i)
    with f have i: "i < length (tasks s)" and q: "phase (tasks s ! i) = Reading"
      and s': "s' = s\<lparr> tasks := (tasks s)[i := (tasks s ! i)
                   \<lparr> phase := Writing (applyMutation (fn (tasks s ! i)) (storage s)) \<rparr>] \<rparr>"
      by (simp_all split: if_splits)
    from q have "\<not> settled (phase (tasks s ! i))" "phase (tasks s ! i) \<noteq> Queued"
      by (simp_all add: settled_def)
    from active_index[OF ts fin rest i this] obtain t later where
      w: "waiting = t # later" and k: "i = length finished" and t: "tasks s ! i = t" by blast
    from h ts w have ht: "onFulfilled t = Call" "onRejected t = Call" by simp_all
    from hd w q t have ct: "called t" by (simp add: underWay_def)
    have "serial start (s\<lparr> tasks := (tasks s)[length finished :=
        t\<lparr> phase := Writing (applyMutation (fn t) (storage s)) \<rparr>] \<rparr>)"
      using h ts[unfolded w] fin rest[unfolded w list.sel] st
      by (rule serial_advance) (simp_all add: ht ct underWay_def)
    then show ?thesis using t unfolding s' k by simp
  next
    case (ReadFailed i)
    with f have i: "i < length (tasks s)" and q: "phase (tasks s ! i) = Reading"
      and s': "s' = s\<lparr> tasks := (tasks s)[i := (tasks s ! i)\<lparr> phase := Rejected \<rparr>] \<rparr>"
      by (simp_all split: if_splits)
    from q have "\<not> settled (phase (tasks s ! i))" "phase (tasks s ! i) \<noteq> Queued"
      by (simp_all add: settled_def)
    from active_index[OF ts fin rest i this] obtain t later where
      w: "waiting = t # later" and k: "i = length finished" and t: "tasks s ! i = t" by blast
    from h ts w have ht: "onFulfilled t = Call" "onRejected t = Call" by simp_all
    from hd w q t have ct: "called t" by (simp add: underWay_def)
    have "serial start (s\<lparr> storage := storage s,
        tasks := (tasks s)[length finished := t\<lparr> phase := Rejected \<rparr>] \<rparr>)"
      using h ts[unfolded w] fin rest[unfolded w list.sel]
      by (rule serial_settle) (simp_all add: ht ct settled_def st)
    then show ?thesis using t unfolding s' k by simp
  next
    case (WriteDone i)
    with f have i: "i < length (tasks s)" by (simp split: if_splits)
    with f WriteDone obtain vl where q: "phase (tasks s ! i) = Writing vl"
      and s': "s' = s\<lparr> storage := vl, tasks := (tasks s)[i := (tasks s ! i)\<lparr> phase := Fulfilled \<rparr>] \<rparr>"
      by (auto split: phase.splits)
    from q have "\<not> settled (phase (tasks s ! i))" "phase (tasks s ! i) \<noteq> Queued"
      by (simp_all add: settled_def)
    from active_index[OF ts fin rest i this] obtain t later where
      w: "waiting = t # later" and k: "i = length finished" and t: "tasks s ! i = t" by blast
    from h ts w have ht: "onFulfilled t = Call" "onRejected t = Call" by simp_all
    from hd w q t have ct: "called t" and vl: "vl = applyMutation (fn t) (storage s)"
      by (simp_all add: underWay_def)
    have "serial start (s\<lparr> storage := vl,
        tasks := (tasks s)[length finished := t\<lparr> phase := Fulfilled \<rparr>] \<rparr>)"
      using h ts[unfolded w] fin rest[unfolded w list.sel]
      by (rule serial_settle) (simp_all add: ht ct settled_def vl st)
    then show ?thesis using t unfolding s' k by simp
  next
    case (WriteFailed i)
    with f have i: "i < length (tasks s)" by (simp split: if_splits)
    with f WriteFailed obtain vl where q: "phase (tasks s ! i) = Writing vl"
      and s': "s' = s\<lparr> tasks := (tasks s)[i := (tasks s ! i)\<lparr> phase := Rejected \<rparr>] \<rparr>"
      by (auto split: phase.splits)
    from q have "\<not> settled (phase (tasks s ! i))" "phase (tasks s ! i) \<noteq> Queued"
      by (simp_all add: settled_def)
    from active_index[OF ts fin rest i this] obtain t later where
      w: "waiting = t # later" and k: "i = length finished" and t: "tasks s ! i = t" by blast
    from h ts w have ht: "onFulfilled t = Call" "onRejected t = Call" by simp_all
    from hd w q t have ct: "called t" by (simp add: underWay_def)
    have "serial start (s\<lparr> storage := storage s,
        tasks := (tasks s)[length finished := t\<lparr> phase := Rejected \<rparr>] \<rparr>)"
      using h ts[unfolded w] fin rest[unfolded w list.sel]
      by (rule serial_settle) (simp_all add: ht ct settled_def st)
    then show ?thesis using t unfolding s' k by simp
  qed
qed

lemma run_serial: "serial start s \<Longrightarrow> run es s = Some s' \<Longrightarrow> serial start s'"
proof (induction es arbitrary: s)
  case Nil
  then show ?case by simp
next
  case (Cons e es)
  from Cons.prems(2) obtain s1 where f: "fire e s = Some s1" and r: "run es s1 = Some s'"
    by (auto split: option.splits)
  from Cons.IH[OF fire_serial[OF Cons.prems(1) f] r] show ?case .
qed

lemma fire_fns:
  "fire e s = Some s' \<Longrightarrow> map fn (tasks s') = map fn (tasks s) @ submitted [e]"
proof (cases e)
  case (React i)
  assume "fire e s = Some s'"
  with React show ?thesis
    by (auto simp: react_def map_update list_update_same_conv
        split: if_splits option.splits handler.splits)
qed (auto simp: serializedWrite_def map_update list_update_same_conv
      split: if_splits phase.splits)

lemma submitted_Cons: "submitted (e # es) = submitted [e] @ submitted es"
  by (cases e) simp_all

lemma run_fns: "run es s = Some s' \<Longrightarrow> map fn (tasks s') = map fn (tasks s) @ submitted es"
proof (induction es arbitrary: s)
  case Nil
  then show ?case by simp
next
  case (Cons e es)
  from Cons.prems obtain s1 where f: "fire e s = Some s1" and r: "run es s1 = Some s'"
    by (auto split: option.splits)
  from Cons.IH[OF r] fire_fns[OF f] show ?case
    by (subst submitted_Cons) simp
qed

subsection \<open>Progress of the queue\<close>

lemma stepsLeft_update:
  "i < length ts \<Longrightarrow> stepsLeft (phase t') < stepsLeft (phase (ts ! i)) \<Longrightarrow>
     sum_list (map (\<lambda>t. stepsLeft (phase t)) (ts[i := t'])) <
     sum_list (map (\<lambda>t. stepsLeft (phase t)) ts)"
proof (induction ts arbitrary: i)
  case Nil
  then show ?case by simp
next
  case (Cons x ts)
  then show ?case by (cases i) auto
qed

lemma settled_stepsLeft: "settled p \<Longrightarrow> stepsLeft p = 0"
  by (auto simp: settled_def)

lemma fire_remaining:
  assumes e: "\<not> isSubmit e" and f: "fire e s = Some s'"
  shows "remaining s' < remaining s"
proof (cases e)
  case (Submit m)
  with e show ?thesis by simp
next
  case (React i)
  with f have i: "i < length (tasks s)" and q: "phase (tasks s ! i) = Queued"
    by (simp_all split: if_splits)
  with f React obtain outcome where c: "chainedOn (tasks s) i = Some outcome"
    and s': "s' = s\<lparr> tasks := (tasks s)[i := react outcome (tasks s ! i)] \<rparr>"
    by (auto split: option.splits)
  from c have "settled outcome" by (auto simp: chainedOn_def settled_def split: if_splits)
  then have "stepsLeft (phase (react outcome (tasks s ! i))) < 3"
    by (auto simp: react_def settled_def split: handler.splits)
  with q have "stepsLeft (phase (react outcome (tasks s ! i))) < stepsLeft (phase (tasks s ! i))"
    by simp
  from stepsLeft_update[OF i this] show ?thesis by (simp add: remaining_def s')
next
  case (ReadDone i)
  with f have i: "i < length (tasks s)" and q: "phase (tasks s ! i) = Reading"
    and s': "s' = s\<lparr> tasks := (tasks s)[i := (tasks s ! i)
                   \<lparr> phase := Writing (applyMutation (fn (tasks s ! i)) (storage s)) \<rparr>] \<rparr>"
    by (simp_all split: if_splits)
  from q stepsLeft_update[OF i, of "(tasks s ! i)
                   \<lparr> phase := Writing (applyMutation (fn (tasks s ! i)) (storage s)) \<rparr>"]
  show ?thesis by (simp add: remaining_def s')
next
  case (ReadFailed i)
  with f have i: "i < length (tasks s)" and q: "phase (tasks s ! i) = Reading"
    and s': "s' = s\<lparr> tasks := (tasks s)[i := (tasks s ! i)\<lparr> phase := Rejected \<rparr>] \<rparr>"
    by (simp_all split: if_splits)
  from q stepsLeft_update[OF i, of "(tasks s ! i)\<lparr> phase := Rejected \<rparr>"]
  show ?thesis by (simp add: remaining_def s')
next
  case (WriteDone i)
  with f have i: "i < length (tasks s)" by (simp split: if_splits)
  with f WriteDone obtain vl where q: "phase (tasks s ! i) = Writing vl"
    and s': "s' = s\<lparr> storage := vl, tasks := (tasks s)[i := (tasks s ! i)\<lparr> phase := Fulfilled \<rparr>] \<rparr>"
    by (auto split: phase.splits)
  from q stepsLeft_update[OF i, of "(tasks s ! i)\<lparr> phase := Fulfilled \<rparr>"]
  show ?thesis by (simp add: remaining_def s')
next
  case (WriteFailed i)
  with f have i: "i < length (tasks s)" by (simp split: if_splits)
  with f WriteFailed obtain vl where q: "phase (tasks s ! i) = Writing vl"
    and s': "s' = s\<lparr> tasks := (tasks s)[i := (tasks s ! i)\<lparr> phase := Rejected \<rparr>] \<rparr>"
    by (auto split: phase.splits)
  from q stepsLeft_update[OF i, of "(tasks s ! i)\<lparr> phase := Rejected \<rparr>"]
  show ?thesis by (simp add: remaining_def s')
qed

text \<open>A queued task reacts to the outcome of its predecessor, whatever that outcome is.\<close>

lemma react_after_any_outcome:
  assumes inv: "serial start s" and i: "i < length (tasks s)"
    and q: "phase (tasks s ! i) = Queued"
    and p: "i = 0 \<or> settled (phase (tasks s ! (i - 1)))"
  shows "\<exists>s'. fire (React i) s = Some s' \<and> phase (tasks s' ! i) = Reading \<and>
              called (tasks s' ! i)"
proof -
  from inv i have h: "onFulfilled (tasks s ! i) = Call" "onRejected (tasks s ! i) = Call"
    by (auto simp: serial_def)
  have "\<exists>outcome. chainedOn (tasks s) i = Some outcome"
  proof (cases "i = 0")
    case True
    then show ?thesis by (simp add: chainedOn_def)
  next
    case False
    with p show ?thesis by (simp add: chainedOn_def)
  qed
  then obtain outcome where c: "chainedOn (tasks s) i = Some outcome" by blast
  from h have "react outcome (tasks s ! i) = (tasks s ! i)\<lparr> phase := Reading, called := True \<rparr>"
    by (simp add: react_def)
  with i q c show ?thesis by simp
qed

text \<open>While a task is not settled, the first such task can take its next step.\<close>

lemma next_step:
  assumes inv: "serial start s" and u: "\<exists>t \<in> set (tasks s). \<not> settled (phase t)"
  shows "\<exists>e s1. \<not> isSubmit e \<and> fire e s = Some s1 \<and> length (tasks s1) = length (tasks s) \<and>
           (\<forall>i < length (tasks s). phase (tasks s ! i) \<noteq> Rejected \<longrightarrow>
                                  phase (tasks s1 ! i) \<noteq> Rejected)"
proof -
  from inv obtain finished waiting where
    ts: "tasks s = finished @ waiting"
    and fin: "\<forall>t \<in> set finished. settled (phase t) \<and> called t"
    and hd: "waiting \<noteq> [] \<longrightarrow> underWay (storage s) (hd waiting)"
    by (rule serialE)
  from u ts fin obtain t later where w: "waiting = t # later" by (cases waiting) auto
  let ?k = "length finished"
  have k: "?k < length (tasks s)" and tk: "tasks s ! ?k = t" unfolding ts w by simp_all
  from hd w have uw: "underWay (storage s) t" by simp
  have keep: "\<forall>i < length (tasks s). phase (tasks s ! i) \<noteq> Rejected \<longrightarrow>
        phase ((tasks s)[?k := t'] ! i) \<noteq> Rejected" if "phase t' \<noteq> Rejected" for t'
  proof (intro allI impI)
    fix i
    assume "i < length (tasks s)" "phase (tasks s ! i) \<noteq> Rejected"
    with that show "phase ((tasks s)[?k := t'] ! i) \<noteq> Rejected"
      by (cases "i = ?k") simp_all
  qed
  show ?thesis
  proof (cases "phase t")
    case Queued
    have "?k = 0 \<or> settled (phase (tasks s ! (?k - 1)))"
      using chainedOn_first_waiting[OF fin, of waiting] ts
      by (auto simp: chainedOn_def split: if_splits)
    from react_after_any_outcome[OF inv k _ this] Queued tk obtain s1 where
      f: "fire (React ?k) s = Some s1" and r: "phase (tasks s1 ! ?k) = Reading" by auto
    from f have l: "length (tasks s1) = length (tasks s)"
      by (auto split: if_splits option.splits)
    have "phase (tasks s1 ! i) \<noteq> Rejected" if "i < length (tasks s)"
      "phase (tasks s ! i) \<noteq> Rejected" for i
    proof (cases "i = ?k")
      case True
      with r show ?thesis by simp
    next
      case False
      with f that show ?thesis by (auto split: if_splits option.splits)
    qed
    with f l show ?thesis by (intro exI[of _ "React ?k"] exI[of _ s1]) simp
  next
    case Reading
    let ?t' = "t\<lparr> phase := Writing (applyMutation (fn t) (storage s)) \<rparr>"
    have "fire (ReadDone ?k) s = Some (s\<lparr> tasks := (tasks s)[?k := ?t'] \<rparr>)"
      using k tk Reading by simp
    with keep[of ?t'] show ?thesis
      by (intro exI[of _ "ReadDone ?k"] exI[of _ "s\<lparr> tasks := (tasks s)[?k := ?t'] \<rparr>"]) simp
  next
    case (Writing vl)
    let ?t' = "t\<lparr> phase := Fulfilled \<rparr>"
    have "fire (WriteDone ?k) s = Some (s\<lparr> storage := vl, tasks := (tasks s)[?k := ?t'] \<rparr>)"
      using k tk Writing by simp
    with keep[of ?t'] show ?thesis
      by (intro exI[of _ "WriteDone ?k"]
          exI[of _ "s\<lparr> storage := vl, tasks := (tasks s)[?k := ?t'] \<rparr>"]) simp
  next
    case Fulfilled
    with uw show ?thesis by (simp add: underWay_def)
  next
    case Rejected
    with uw show ?thesis by (simp add: underWay_def)
  qed
qed

text \<open>From every state of the queue, the tasks that have not failed can all be completed.\<close>

lemma completion:
  assumes inv: "serial start s"
  shows "\<exists>es s'. (\<forall>e \<in> set es. \<not> isSubmit e) \<and> run es s = Some s' \<and>
           length (tasks s') = length (tasks s) \<and>
           (\<forall>i < length (tasks s). phase (tasks s ! i) \<noteq> Rejected \<longrightarrow>
                                  phase (tasks s' ! i) = Fulfilled)"
  using inv
proof (induction "remaining s" arbitrary: s rule: less_induct)
  case less
  show ?case
  proof (cases "\<exists>t \<in> set (tasks s). \<not> settled (phase t)")
    case False
    then have "\<forall>i < length (tasks s). phase (tasks s ! i) \<noteq> Rejected \<longrightarrow>
        phase (tasks s ! i) = Fulfilled"
      by (auto simp: settled_def)
    then show ?thesis by (intro exI[of _ "[]"] exI[of _ s]) simp
  next
    case True
    from next_step[OF less.prems True] obtain e s1 where
      e: "\<not> isSubmit e" and f: "fire e s = Some s1" and l: "length (tasks s1) = length (tasks s)"
      and k: "\<forall>i < length (tasks s). phase (tasks s ! i) \<noteq> Rejected \<longrightarrow>
                                  phase (tasks s1 ! i) \<noteq> Rejected" by blast
    from less.hyps[OF fire_remaining[OF e f] fire_serial[OF less.prems f]] obtain es s' where
      es: "\<forall>e \<in> set es. \<not> isSubmit e" and r: "run es s1 = Some s'"
      and l': "length (tasks s') = length (tasks s1)"
      and d: "\<forall>i < length (tasks s1). phase (tasks s1 ! i) \<noteq> Rejected \<longrightarrow>
                                  phase (tasks s' ! i) = Fulfilled" by blast
    have "run (e # es) s = Some s'" using f r by simp
    moreover have "\<forall>x \<in> set (e # es). \<not> isSubmit x" using e es by simp
    moreover have "\<forall>i < length (tasks s). phase (tasks s ! i) \<noteq> Rejected \<longrightarrow>
                                  phase (tasks s' ! i) = Fulfilled"
      using k d l by simp
    ultimately show ?thesis using l l' by (intro exI[of _ "e # es"] exI[of _ s']) simp
  qed
qed

lemma serial_storage:
  assumes inv: "serial start s"
  shows "storage s = applied start (tasks s)"
proof -
  from inv obtain finished waiting where
    ts: "tasks s = finished @ waiting"
    and hd: "waiting \<noteq> [] \<longrightarrow> underWay (storage s) (hd waiting)"
    and rest: "\<forall>t \<in> set (tl waiting). phase t = Queued"
    and st: "storage s = applied start finished"
    by (rule serialE)
  have "filter (\<lambda>t. phase t = Fulfilled) waiting = []"
  proof (cases waiting)
    case Nil
    then show ?thesis by simp
  next
    case (Cons t later)
    with hd have "phase t \<noteq> Fulfilled" by (auto simp: underWay_def)
    moreover from rest Cons have "\<forall>x \<in> set later. phase x \<noteq> Fulfilled" by auto
    ultimately show ?thesis using Cons by (simp add: filter_empty_conv)
  qed
  with st ts show ?thesis by simp
qed

lemma serial_called: "serial start s \<Longrightarrow> t \<in> set (tasks s) \<Longrightarrow> settled (phase t) \<Longrightarrow> called t"
proof -
  assume inv: "serial start s" and t: "t \<in> set (tasks s)" and s: "settled (phase t)"
  from inv obtain finished waiting where
    ts: "tasks s = finished @ waiting"
    and fin: "\<forall>t \<in> set finished. settled (phase t) \<and> called t"
    and hd: "waiting \<noteq> [] \<longrightarrow> underWay (storage s) (hd waiting)"
    and rest: "\<forall>t \<in> set (tl waiting). phase t = Queued"
    by (rule serialE)
  have "t \<notin> set waiting"
  proof (cases waiting)
    case Nil
    then show ?thesis by simp
  next
    case (Cons x later)
    with hd underWay_not_settled[of "storage s" x] have "\<not> settled (phase x)" by simp
    moreover from rest Cons have "\<forall>y \<in> set later. \<not> settled (phase y)"
      by (auto simp: settled_def)
    ultimately show ?thesis using s Cons by auto
  qed
  with t ts fin show ?thesis by auto
qed

lemma run_append:
  "run (es @ es') s = (case run es s of None \<Rightarrow> None | Some s1 \<Rightarrow> run es' s1)"
  by (induction es arbitrary: s) (auto split: option.splits)

lemma submitted_append: "submitted (es @ es') = submitted es @ submitted es'"
  by (induction es rule: submitted.induct) simp_all

lemma submitted_none: "\<forall>e \<in> set es. \<not> isSubmit e \<Longrightarrow> submitted es = []"
  by (induction es rule: submitted.induct) simp_all

lemma run_initial_fns: "run es (initial start) = Some s \<Longrightarrow> map fn (tasks s) = submitted es"
  using run_fns[of es "initial start" s] by (simp add: initial_def)

lemma all_fulfilled_filter:
  "\<forall>t \<in> set ts. phase t = Fulfilled \<Longrightarrow> filter (\<lambda>t. phase t = Fulfilled) ts = ts"
  by (simp add: filter_id_conv)

text \<open>
  Claim C1. Take any run of the queue from a stored list: mutations are submitted at
  any moments, and the reactions and the completions of the storage reads and writes
  happen in any order the promises allow. The tasks are the submitted mutations in the
  order of submission, and the list stored is always the result of applying the
  fulfilled ones in that order; so once all are fulfilled it is the result of applying
  all submitted mutations sequentially in submission order. Such an end is reached: the
  run can be continued, without new submissions, to a state in which every task is
  fulfilled, if none has failed.
\<close>

theorem serialized_mutations_in_order:
  "run es (initial start) = Some s \<Longrightarrow>
     map fn (tasks s) = submitted es \<and>
     storage s =
       foldl (\<lambda>vocabList f. applyMutation f vocabList) start
         (map fn (filter (\<lambda>t. phase t = Fulfilled) (tasks s))) \<and>
     ((\<forall>t \<in> set (tasks s). phase t = Fulfilled) \<longrightarrow>
        storage s = foldl (\<lambda>vocabList f. applyMutation f vocabList) start (submitted es)) \<and>
     (\<exists>es' s'. (\<forall>e \<in> set es'. \<not> isSubmit e) \<and>
        run (es @ es') (initial start) = Some s' \<and>
        submitted (es @ es') = submitted es \<and>
        ((\<forall>t \<in> set (tasks s). phase t \<noteq> Rejected) \<longrightarrow>
           (\<forall>t \<in> set (tasks s'). phase t = Fulfilled) \<and>
           storage s' =
             foldl (\<lambda>vocabList f. applyMutation f vocabList) start (submitted es)))"
proof -
  assume r: "run es (initial start) = Some s"
  from run_serial[OF serial_initial r] have inv: "serial start s" .
  have A: "map fn (tasks s) = submitted es" using r by (rule run_initial_fns)
  have B: "storage s = applied start (tasks s)" using inv by (rule serial_storage)
  have C: "(\<forall>t \<in> set (tasks s). phase t = Fulfilled) \<longrightarrow>
        storage s = foldl (\<lambda>vocabList f. applyMutation f vocabList) start (submitted es)"
    using A B by (auto simp: all_fulfilled_filter)
  from completion[OF inv] obtain es' s' where
    ns: "\<forall>e \<in> set es'. \<not> isSubmit e" and r': "run es' s = Some s'"
    and l: "length (tasks s') = length (tasks s)"
    and d: "\<forall>i < length (tasks s). phase (tasks s ! i) \<noteq> Rejected \<longrightarrow>
              phase (tasks s' ! i) = Fulfilled" by blast
  have r2: "run (es @ es') (initial start) = Some s'" using r r' by (simp add: run_append)
  have sub: "submitted (es @ es') = submitted es"
    using submitted_none[OF ns] by (simp add: submitted_append)
  have fin: "(\<forall>t \<in> set (tasks s'). phase t = Fulfilled) \<and>
           storage s' = foldl (\<lambda>vocabList f. applyMutation f vocabList) start (submitted es)"
    if nr: "\<forall>t \<in> set (tasks s). phase t \<noteq> Rejected"
  proof -
    have all: "\<forall>t \<in> set (tasks s'). phase t = Fulfilled"
    proof
      fix t assume "t \<in> set (tasks s')"
      then obtain i where i: "i < length (tasks s')" "t = tasks s' ! i"
        by (auto simp: in_set_conv_nth)
      with l nr have "phase (tasks s ! i) \<noteq> Rejected" by simp
      with d i l show "phase t = Fulfilled" by simp
    qed
    from run_serial[OF serial_initial r2] have "storage s' = applied start (tasks s')"
      by (rule serial_storage)
    with all run_initial_fns[OF r2] sub show ?thesis by (simp add: all_fulfilled_filter)
  qed
  have D: "\<exists>es' s'. (\<forall>e \<in> set es'. \<not> isSubmit e) \<and>
        run (es @ es') (initial start) = Some s' \<and>
        submitted (es @ es') = submitted es \<and>
        ((\<forall>t \<in> set (tasks s). phase t \<noteq> Rejected) \<longrightarrow>
           (\<forall>t \<in> set (tasks s'). phase t = Fulfilled) \<and>
           storage s' =
             foldl (\<lambda>vocabList f. applyMutation f vocabList) start (submitted es))"
    using ns r2 sub fin by blast
  show ?thesis by (rule conjI[OF A conjI[OF B conjI[OF C D]]])
qed

theorem serialized_mutations_in_order_witness:
  "run [Submit (upsertOf ''cat'' ''chat'' ''t1''), Submit (upsertOf ''dog'' ''chien'' ''t2''),
        React 0, Submit (Remove ''CAT''), ReadDone 0, Submit (upsertOf ''Dog'' ''hund'' ''t4''),
        WriteDone 0, React 1, ReadDone 1, WriteDone 1, React 2, ReadDone 2, WriteDone 2,
        React 3, ReadDone 3, WriteDone 3] (initial []) =
     Some \<lparr> storage = [\<lparr> word = ''Dog'', translation = ''hund'', ctx = [], sourceUrl = [],
                          addedAt = ''t2'' \<rparr>],
            tasks =
              [\<lparr> fn = upsertOf ''cat'' ''chat'' ''t1'', onFulfilled = Call, onRejected = Call,
                  phase = Fulfilled, called = True \<rparr>,
               \<lparr> fn = upsertOf ''dog'' ''chien'' ''t2'', onFulfilled = Call, onRejected = Call,
                  phase = Fulfilled, called = True \<rparr>,
               \<lparr> fn = Remove ''CAT'', onFulfilled = Call, onRejected = Call,
                  phase = Fulfilled, called = True \<rparr>,
               \<lparr> fn = upsertOf ''Dog'' ''hund'' ''t4'', onFulfilled = Call, onRejected = Call,
                  phase = Fulfilled, called = True \<rparr>] \<rparr> \<and>
   foldl (\<lambda>vocabList f. applyMutation f vocabList) []
     [upsertOf ''cat'' ''chat'' ''t1'', upsertOf ''dog'' ''chien'' ''t2'', Remove ''CAT'',
      upsertOf ''Dog'' ''hund'' ''t4''] =
     [\<lparr> word = ''Dog'', translation = ''hund'', ctx = [], sourceUrl = [], addedAt = ''t2'' \<rparr>] \<and>
   run [Submit (upsertOf ''cat'' ''chat'' ''t1''), Submit (upsertOf ''dog'' ''chien'' ''t2''),
        React 0, React 1] (initial []) = None \<and>
   run [Submit (upsertOf ''cat'' ''chat'' ''t1''), Submit (upsertOf ''dog'' ''chien'' ''t2''),
        React 0, ReadDone 0, React 1] (initial []) = None"
proof -
  let ?es = "[Submit (upsertOf ''cat'' ''chat'' ''t1''), Submit (upsertOf ''dog'' ''chien'' ''t2''),
        React 0, Submit (Remove ''CAT''), ReadDone 0, Submit (upsertOf ''Dog'' ''hund'' ''t4''),
        WriteDone 0, React 1, ReadDone 1, WriteDone 1, React 2, ReadDone 2, WriteDone 2,
        React 3, ReadDone 3, WriteDone 3]"
  let ?s = "\<lparr> storage = [\<lparr> word = ''Dog'', translation = ''hund'', ctx = [], sourceUrl = [],
                          addedAt = ''t2'' \<rparr>],
            tasks =
              [\<lparr> fn = upsertOf ''cat'' ''chat'' ''t1'', onFulfilled = Call, onRejected = Call,
                  phase = Fulfilled, called = True \<rparr>,
               \<lparr> fn = upsertOf ''dog'' ''chien'' ''t2'', onFulfilled = Call, onRejected = Call,
                  phase = Fulfilled, called = True \<rparr>,
               \<lparr> fn = Remove ''CAT'', onFulfilled = Call, onRejected = Call,
                  phase = Fulfilled, called = True \<rparr>,
               \<lparr> fn = upsertOf ''Dog'' ''hund'' ''t4'', onFulfilled = Call, onRejected = Call,
                  phase = Fulfilled, called = True \<rparr>] \<rparr>"
  have r: "run ?es (initial []) = Some ?s" by code_simp
  have b1: "run [Submit (upsertOf ''cat'' ''chat'' ''t1''), Submit (upsertOf ''dog'' ''chien'' ''t2''),
        React 0, React 1] (initial []) = None" by code_simp
  have b2: "run [Submit (upsertOf ''cat'' ''chat'' ''t1''), Submit (upsertOf ''dog'' ''chien'' ''t2''),
        React 0, ReadDone 0, React 1] (initial []) = None" by code_simp
  have all: "\<forall>t \<in> set (tasks ?s). phase t = Fulfilled" by simp
  from serialized_mutations_in_order[OF r, THEN conjunct2, THEN conjunct2, THEN conjunct1,
      THEN mp, OF all]
  have "foldl (\<lambda>vocabList f. applyMutation f vocabList) [] (submitted ?es) = storage ?s"
    by simp
  then have "foldl (\<lambda>vocabList f. applyMutation f vocabList) []
     [upsertOf ''cat'' ''chat'' ''t1'', upsertOf ''dog'' ''chien'' ''t2'', Remove ''CAT'',
      upsertOf ''Dog'' ''hund'' ''t4''] =
     [\<lparr> word = ''Dog'', translation = ''hund'', ctx = [], sourceUrl = [], addedAt = ''t2'' \<rparr>]"
    by simp
  with r b1 b2 show ?thesis by (simp only: simp_thms)
qed

text \<open>
  Claim C9. In every state that a run reaches, failures included: every settled task
  was called; a queued task whose predecessor has settled, fulfilled or rejected, is
  called by its reaction; while a task is not settled some step of the queue is
  possible; every such step brings the queue nearer to its end; and the run can be
  continued to a state in which every task that has not failed is fulfilled.
\<close>

theorem failure_does_not_block_queue:
  "run es (initial start) = Some s \<Longrightarrow>
     (\<forall>t \<in> set (tasks s). settled (phase t) \<longrightarrow> called t) \<and>
     (\<forall>i < length (tasks s).
        phase (tasks s ! i) = Queued \<and> (i = 0 \<or> settled (phase (tasks s ! (i - 1)))) \<longrightarrow>
        (\<exists>s'. fire (React i) s = Some s' \<and> phase (tasks s' ! i) = Reading \<and>
              called (tasks s' ! i))) \<and>
     ((\<exists>t \<in> set (tasks s). \<not> settled (phase t)) \<longrightarrow>
        (\<exists>e s'. \<not> isSubmit e \<and> fire e s = Some s')) \<and>
     (\<forall>e s'. \<not> isSubmit e \<and> fire e s = Some s' \<longrightarrow> remaining s' < remaining s) \<and>
     (\<exists>es' s'. (\<forall>e \<in> set es'. \<not> isSubmit e) \<and> run es' s = Some s' \<and>
        length (tasks s') = length (tasks s) \<and>
        (\<forall>i < length (tasks s). phase (tasks s ! i) \<noteq> Rejected \<longrightarrow>
                               phase (tasks s' ! i) = Fulfilled))"
proof -
  assume r: "run es (initial start) = Some s"
  from run_serial[OF serial_initial r] have inv: "serial start s" .
  have A: "\<forall>t \<in> set (tasks s). settled (phase t) \<longrightarrow> called t"
    using serial_called[OF inv] by blast
  have B: "\<forall>i < length (tasks s).
        phase (tasks s ! i) = Queued \<and> (i = 0 \<or> settled (phase (tasks s ! (i - 1)))) \<longrightarrow>
        (\<exists>s'. fire (React i) s = Some s' \<and> phase (tasks s' ! i) = Reading \<and>
              called (tasks s' ! i))"
    using react_after_any_outcome[OF inv] by blast
  have C: "(\<exists>t \<in> set (tasks s). \<not> settled (phase t)) \<longrightarrow>
        (\<exists>e s'. \<not> isSubmit e \<and> fire e s = Some s')"
    using next_step[OF inv] by blast
  have D: "\<forall>e s'. \<not> isSubmit e \<and> fire e s = Some s' \<longrightarrow> remaining s' < remaining s"
    using fire_remaining by blast
  have E: "\<exists>es' s'. (\<forall>e \<in> set es'. \<not> isSubmit e) \<and> run es' s = Some s' \<and>
        length (tasks s') = length (tasks s) \<and>
        (\<forall>i < length (tasks s). phase (tasks s ! i) \<noteq> Rejected \<longrightarrow>
                               phase (tasks s' ! i) = Fulfilled)"
    using completion[OF inv] .
  show ?thesis by (rule conjI[OF A conjI[OF B conjI[OF C conjI[OF D E]]]])
qed

theorem failure_does_not_block_queue_witness:
  "run [Submit (upsertOf ''cat'' ''chat'' ''t1''), Submit (upsertOf ''dog'' ''chien'' ''t2''),
        React 0, ReadDone 0, WriteFailed 0] (initial []) =
     Some \<lparr> storage = [],
            tasks =
              [\<lparr> fn = upsertOf ''cat'' ''chat'' ''t1'', onFulfilled = Call, onRejected = Call,
                  phase = Rejected, called = True \<rparr>,
               \<lparr> fn = upsertOf ''dog'' ''chien'' ''t2'', onFulfilled = Call, onRejected = Call,
                  phase = Queued, called = False \<rparr>] \<rparr> \<and>
   (\<exists>s'. fire (React 1)
            \<lparr> storage = [],
              tasks =
                [\<lparr> fn = upsertOf ''cat'' ''chat'' ''t1'', onFulfilled = Call, onRejected = Call,
                    phase = Rejected, called = True \<rparr>,
                 \<lparr> fn = upsertOf ''dog'' ''chien'' ''t2'', onFulfilled = Call, onRejected = Call,
                    phase = Queued, called = False \<rparr>] \<rparr> = Some s' \<and>
          phase (tasks s' ! 1) = Reading \<and> called (tasks s' ! 1)) \<and>
   run [Submit (upsertOf ''cat'' ''chat'' ''t1''), Submit (upsertOf ''dog'' ''chien'' ''t2''),
        React 0, ReadDone 0, WriteFailed 0, React 1, ReadDone 1, WriteDone 1] (initial []) =
     Some \<lparr> storage = [\<lparr> word = ''dog'', translation = ''chien'', ctx = [], sourceUrl = [],
                          addedAt = ''t2'' \<rparr>],
            tasks =
              [\<lparr> fn = upsertOf ''cat'' ''chat'' ''t1'', onFulfilled = Call, onRejected = Call,
                  phase = Rejected, called = True \<rparr>,
               \<lparr> fn = upsertOf ''dog'' ''chien'' ''t2'', onFulfilled = Call, onRejected = Call,
                  phase = Fulfilled, called = True \<rparr>] \<rparr>"
proof -
  let ?s = "\<lparr> storage = [],
              tasks =
                [\<lparr> fn = upsertOf ''cat'' ''chat'' ''t1'', onFulfilled = Call, onRejected = Call,
                    phase = Rejected, called = True \<rparr>,
                 \<lparr> fn = upsertOf ''dog'' ''chien'' ''t2'', onFulfilled = Call, onRejected = Call,
                    phase = Queued, called = False \<rparr>] \<rparr>"
  have r: "run [Submit (upsertOf ''cat'' ''chat'' ''t1''), Submit (upsertOf ''dog'' ''chien'' ''t2''),
        React 0, ReadDone 0, WriteFailed 0] (initial []) = Some ?s" by code_simp
  have r2: "run [Submit (upsertOf ''cat'' ''chat'' ''t1''), Submit (upsertOf ''dog'' ''chien'' ''t2''),
        React 0, ReadDone 0, WriteFailed 0, React 1, ReadDone 1, WriteDone 1] (initial []) =
     Some \<lparr> storage = [\<lparr> word = ''dog'', translation = ''chien'', ctx = [], sourceUrl = [],
                          addedAt = ''t2'' \<rparr>],
            tasks =
              [\<lparr> fn = upsertOf ''cat'' ''chat'' ''t1'', onFulfilled = Call, onRejected = Call,
                  phase = Rejected, called = True \<rparr>,
               \<lparr> fn = upsertOf ''dog'' ''chien'' ''t2'', onFulfilled = Call, onRejected = Call,
                  phase = Fulfilled, called = True \<rparr>] \<rparr>" by code_simp
  have p: "(1::nat) < length (tasks ?s)" "phase (tasks ?s ! 1) = Queued \<and>
      ((1::nat) = 0 \<or> settled (phase (tasks ?s ! (1 - 1))))"
    by (simp_all add: settled_def)
  from failure_does_not_block_queue[OF r, THEN conjunct2, THEN conjunct1, THEN spec, THEN mp,
      OF p(1), THEN mp, OF p(2)]
  have "\<exists>s'. fire (React 1) ?s = Some s' \<and> phase (tasks s' ! 1) = Reading \<and>
      called (tasks s' ! 1)" .
  with r r2 show ?thesis by (simp only: simp_thms)
qed

end
